theory Spec2Isabelle
  imports Main
begin

section \<open>Python strings\<close>

text \<open>
  A Python \<open>str\<close> is a sequence of Unicode code points. The sanitizer of
  \<open>txt_to_csv.py\<close> keeps the Hangul syllables U+AC00..U+D7A3, which do not fit in an
  8-bit character, so a string is a list of code points. \<open>ustr\<close> turns an ASCII literal
  into such a list.
\<close>

type_synonym ustring = "nat list"

definition ustr :: "string \<Rightarrow> ustring" where
  "ustr s = map of_char s"

text \<open>
  \<open>str.isspace\<close>, which is also what \<open>str.strip()\<close> removes and what \<open>\s\<close> matches in a
  \<open>str\<close> pattern: U+0009..U+000D, U+001C..U+0020, U+0085, U+00A0, U+1680,
  U+2000..U+200A, U+2028, U+2029, U+202F, U+205F, U+3000.
\<close>

definition isspace :: "nat \<Rightarrow> bool" where
  "isspace c \<longleftrightarrow>
     (9 \<le> c \<and> c \<le> 13) \<or> (28 \<le> c \<and> c \<le> 32) \<or> c = 133 \<or> c = 160 \<or> c = 5760 \<or>
     (8192 \<le> c \<and> c \<le> 8202) \<or> c = 8232 \<or> c = 8233 \<or> c = 8239 \<or> c = 8287 \<or> c = 12288"

text \<open>\<open>s.strip()\<close>: leading and trailing whitespace removed.\<close>

definition strip :: "ustring \<Rightarrow> ustring" where
  "strip s = rev (dropWhile isspace (rev (dropWhile isspace s)))"

text \<open>\<open>re.sub(r"\s+", " ", s)\<close>: every maximal run of whitespace becomes one space.\<close>

function sub_ws :: "ustring \<Rightarrow> ustring" where
  "sub_ws [] = []"
| "sub_ws (c # cs) =
     (if isspace c then 32 # sub_ws (dropWhile isspace cs) else c # sub_ws cs)"
  by pat_completeness auto
termination
  by (relation "measure length") (auto simp: length_dropWhile_le less_Suc_eq_le)

text \<open>\<open>str(n)\<close> for a non-negative integer: its decimal digits.\<close>

fun str_nat :: "nat \<Rightarrow> ustring" where
  "str_nat n = (if n < 10 then [48 + n] else str_nat (n div 10) @ [48 + n mod 10])"

declare str_nat.simps [simp del]

text \<open>
  \<open>s.lower()\<close>. Only the ASCII letters are mapped: the program compares lowered
  strings with the ASCII literals \<open>filename\<close> and \<open>.txt\<close> only, and no code point outside
  \<open>A\<close>..\<open>Z\<close> has a lower-case form that contains an ASCII letter of these two
  literals or a dot, so the comparisons come out as in Python.
\<close>

definition lower :: "ustring \<Rightarrow> ustring" where
  "lower s = map (\<lambda>c. if 65 \<le> c \<and> c \<le> 90 then c + 32 else c) s"

text \<open>\<open>s.endswith(suf)\<close>.\<close>

definition endswith :: "ustring \<Rightarrow> ustring \<Rightarrow> bool" where
  "endswith s suf \<longleftrightarrow> length suf \<le> length s \<and> drop (length s - length suf) s = suf"

text \<open>\<open>p.rfind(c)\<close> for a one-character \<open>c\<close>: the last index of \<open>c\<close>, or \<open>-1\<close>.\<close>

definition rfind :: "ustring \<Rightarrow> nat \<Rightarrow> int" where
  "rfind p c =
     (if c \<in> set p then int (length p - 1 - length (takeWhile (\<lambda>x. x \<noteq> c) (rev p))) else - 1)"

text \<open>
  \<open>os.path.splitext\<close> as \<open>posixpath\<close> has it (separator \<open>/\<close>, no alternative separator,
  extension separator \<open>.\<close>). \<open>skip_dots\<close> is its inner loop, which looks for a character
  other than a dot between the last separator and the last dot; leading dots of the last
  component do not start an extension.
\<close>

function skip_dots :: "ustring \<Rightarrow> nat \<Rightarrow> nat \<Rightarrow> bool" where
  "skip_dots p filenameIndex dotIndex =
     (if filenameIndex < dotIndex
      then (if p ! filenameIndex \<noteq> 46 then True else skip_dots p (filenameIndex + 1) dotIndex)
      else False)"
  by pat_completeness auto
termination
  by (relation "measure (\<lambda>(p, filenameIndex, dotIndex). dotIndex - filenameIndex)") auto

declare skip_dots.simps [simp del]

definition splitext :: "ustring \<Rightarrow> ustring \<times> ustring" where
  "splitext p =
     (let sepIndex = rfind p 47;
          dotIndex = rfind p 46
      in if dotIndex > sepIndex \<and> skip_dots p (nat (sepIndex + 1)) (nat dotIndex)
         then (take (nat dotIndex) p, drop (nat dotIndex) p)
         else (p, []))"

section \<open>Tables\<close>

text \<open>
  A cell of the parsed table is a string, a missing value (NaN, whose \<open>str()\<close> is \<open>nan\<close>), or
  another non-string value such as a number; the latter carries the text that \<open>str()\<close>
  gives for it, which is all the program ever asks of such a value.
\<close>

datatype cell = CStr ustring | CMissing | CNum ustring

fun py_str :: "cell \<Rightarrow> ustring" where
  "py_str (CStr s) = s"
| "py_str CMissing = ustr ''nan''"
| "py_str (CNum t) = t"

text \<open>
  A data frame: the column labels and, for each row in order, its cells in column
  order. \<open>iterrows\<close> pairs each row with its index label, which for a parsed CSV is its
  0-based position.
\<close>

record dataframe =
  columns :: "ustring list"
  data :: "cell list list"

definition iterrows :: "dataframe \<Rightarrow> (nat \<times> cell list) list" where
  "iterrows df = zip [0 ..< length (data df)] (data df)"

text \<open>Looking a label up in a row: \<open>None\<close> is the \<open>KeyError\<close> of \<open>row[col]\<close>.\<close>

definition series_get :: "ustring list \<Rightarrow> cell list \<Rightarrow> ustring \<Rightarrow> cell option" where
  "series_get cols row col = map_of (zip cols row) col"

text \<open>The test \<open>isinstance(val, str) and val.strip()\<close> of both programs.\<close>

fun nonempty_str :: "cell \<Rightarrow> bool" where
  "nonempty_str (CStr s) = (strip s \<noteq> [])"
| "nonempty_str CMissing = False"
| "nonempty_str (CNum t) = False"

text \<open>The default name \<open>f"row_{i+1}"\<close>.\<close>

definition row_name :: "nat \<Rightarrow> ustring" where
  "row_name i = ustr ''row_'' @ str_nat (i + 1)"

section \<open>\<open>app.py\<close>: the sanitizer\<close>

text \<open>
  The character class \<open>[\\/:\*\?\"<>\|\r\n\t]\<close> of \<open>sanitize_filename\<close> in \<open>app.py\<close>:
  backslash, slash, colon, star, question mark, double quote, angle brackets, bar,
  CR, LF, TAB.
\<close>

definition unsafe_char :: "nat \<Rightarrow> bool" where
  "unsafe_char c \<longleftrightarrow>
     c = 92 \<or> c = 47 \<or> c = 58 \<or> c = 42 \<or> c = 63 \<or> c = 34 \<or> c = 60 \<or> c = 62 \<or>
     c = 124 \<or> c = 13 \<or> c = 10 \<or> c = 9"

text \<open>
  \<open>sanitize_filename\<close> of \<open>app.py\<close>: strip, replace the characters of the class by an
  underscore, collapse whitespace, and fall back to \<open>untitled\<close> on the empty string.
\<close>

definition sanitize_filename_app :: "ustring \<Rightarrow> ustring" where
  "sanitize_filename_app name =
     (let name1 = strip name;
          name2 = map (\<lambda>c. if unsafe_char c then 95 else c) name1;
          name3 = sub_ws name2
      in if name3 \<noteq> [] then name3 else ustr ''untitled'')"

section \<open>\<open>txt_to_csv.py\<close>: the sanitizer and the suffix\<close>

text \<open>
  \<open>INVALID_FILENAME_CHARS\<close> is the negated class \<open>[^A-Za-z0-9\<dots> _\-\.\(\)\[\]]\<close>, where
  the range elided here is U+AC00..U+D7A3. \<open>valid_char\<close> is the class inside the negation.
\<close>

definition valid_char :: "nat \<Rightarrow> bool" where
  "valid_char c \<longleftrightarrow>
     (65 \<le> c \<and> c \<le> 90) \<or> (97 \<le> c \<and> c \<le> 122) \<or> (48 \<le> c \<and> c \<le> 57) \<or>
     (44032 \<le> c \<and> c \<le> 55203) \<or> c = 32 \<or> c = 95 \<or> c = 45 \<or> c = 46 \<or>
     c = 40 \<or> c = 41 \<or> c = 91 \<or> c = 93"

text \<open>
  \<open>sanitize_filename\<close> of \<open>txt_to_csv.py\<close>: strip, collapse whitespace, replace every
  character outside the class by an underscore, and fall back to \<open>untitled\<close>.
\<close>

definition sanitize_filename_t2c :: "ustring \<Rightarrow> ustring" where
  "sanitize_filename_t2c name =
     (let name1 = strip name;
          name2 = sub_ws name1;
          name3 = map (\<lambda>c. if valid_char c then c else 95) name2
      in if name3 = [] then ustr ''untitled'' else name3)"

section \<open>\<open>app.py\<close>: text selection, unique names and the conversion loop\<close>

fun first_string_cell :: "cell list \<Rightarrow> ustring option" where
  "first_string_cell [] = None"
| "first_string_cell (val # row) =
     (if nonempty_str val then Some (py_str val) else first_string_cell row)"

text \<open>
  \<open>ensure_unique\<close> returns the name together with the updated set \<open>used\<close>. Its
  \<open>while True\<close> loop is \<open>ensure_unique_loop\<close>; \<open>None\<close> stands for a loop that never ends.
\<close>

definition candidate_name :: "ustring \<Rightarrow> ustring \<Rightarrow> nat \<Rightarrow> ustring" where
  "candidate_name base ext i = base @ ustr ''_'' @ str_nat i @ ext"

partial_function (option) ensure_unique_loop ::
  "ustring \<Rightarrow> ustring \<Rightarrow> ustring set \<Rightarrow> nat \<Rightarrow> (ustring \<times> ustring set) option" where
  "ensure_unique_loop base ext used i =
     (let candidate = candidate_name base ext i
      in if candidate \<notin> used then Some (candidate, insert candidate used)
         else ensure_unique_loop base ext used (i + 1))"

definition ensure_unique :: "ustring \<Rightarrow> ustring set \<Rightarrow> (ustring \<times> ustring set) option" where
  "ensure_unique name used =
     (let (base, ext) = splitext name
      in if name \<notin> used then Some (name, insert name used)
         else ensure_unique_loop base ext used 2)"

text \<open>
  The column used for file names: the first column whose lowered label is \<open>filename\<close>,
  or \<open>None\<close>.
\<close>

definition find_filename_col :: "ustring list \<Rightarrow> ustring option" where
  "find_filename_col cols = find (\<lambda>col. lower col = ustr ''filename'') cols"

datatype error = KeyError

text \<open>
  The raw name of a row. \<open>if filename_col:\<close> is false for \<open>None\<close> and for the empty label.
\<close>

definition raw_name_app ::
  "ustring list \<Rightarrow> ustring option \<Rightarrow> nat \<Rightarrow> cell list \<Rightarrow> error + ustring" where
  "raw_name_app cols filename_col i row =
     (case filename_col of
        None \<Rightarrow> Inr (row_name i @ ustr ''.txt'')
      | Some col \<Rightarrow>
          if col \<noteq> [] then
            (case series_get cols row col of
               None \<Rightarrow> Inl KeyError
             | Some val \<Rightarrow> Inr (py_str val @ ustr ''.txt''))
          else Inr (row_name i @ ustr ''.txt''))"

text \<open>
  The state of the loop: the set \<open>used_names\<close>, the counter \<open>created\<close>, and the entries
  written to the archive \<open>zf\<close> so far (name and content, in order).
\<close>

record app_state =
  used_names :: "ustring set"
  created :: nat
  zf :: "(ustring \<times> ustring) list"

fun convert_loop_app ::
  "ustring list \<Rightarrow> ustring option \<Rightarrow> (nat \<times> cell list) list \<Rightarrow> app_state \<Rightarrow>
   (error + app_state) option" where
  "convert_loop_app cols filename_col [] st = Some (Inr st)"
| "convert_loop_app cols filename_col ((i, row) # rest) st =
     (case first_string_cell row of
        None \<Rightarrow> convert_loop_app cols filename_col rest st
      | Some text_value \<Rightarrow>
          (case raw_name_app cols filename_col i row of
             Inl e \<Rightarrow> Some (Inl e)
           | Inr raw_name \<Rightarrow>
               (case ensure_unique (sanitize_filename_app raw_name) (used_names st) of
                  None \<Rightarrow> None
                | Some (file_name, used') \<Rightarrow>
                    convert_loop_app cols filename_col rest
                      (st\<lparr>used_names := used',
                          zf := zf st @ [(file_name, text_value)],
                          created := created st + 1\<rparr>))))"

text \<open>
  What the run reports: \<open>len(df)\<close> rows processed, \<open>created\<close> files, and the archive.
\<close>

record report =
  rows_processed :: nat
  files_created :: nat
  archive :: "(ustring \<times> ustring) list"

definition convert_app :: "dataframe \<Rightarrow> (error + report) option" where
  "convert_app df =
     (case convert_loop_app (columns df) (find_filename_col (columns df)) (iterrows df)
             \<lparr>used_names = {}, created = 0, zf = []\<rparr> of
        None \<Rightarrow> None
      | Some (Inl e) \<Rightarrow> Some (Inl e)
      | Some (Inr st) \<Rightarrow>
          Some (Inr \<lparr>rows_processed = length (data df), files_created = created st,
                     archive = zf st\<rparr>))"

section \<open>\<open>txt_to_csv.py\<close>: text selection, file names and the conversion loop\<close>

definition ensure_txt_suffix :: "ustring \<Rightarrow> ustring" where
  "ensure_txt_suffix name =
     (if endswith (lower name) (ustr ''.txt'') then name else name @ ustr ''.txt'')"

fun first_nonempty_str :: "cell list \<Rightarrow> ustring option" where
  "first_nonempty_str [] = None"
| "first_nonempty_str (val # series_like) =
     (if nonempty_str val then Some (strip (py_str val)) else first_nonempty_str series_like)"

text \<open>
  The options chosen on the page. \<open>filename_col\<close> is a column label or the entry
  \<open>NO_COLUMN\<close>, the four code points U+0028 U+C5C6 U+C74C U+0029 of the select box;
  \<open>text_mode\<close> is one of the two radio entries; \<open>text_col\<close> stays \<open>None\<close> unless the first
  one is chosen.
\<close>

datatype text_mode = SpecificColumn | FirstNonEmptyString

record options =
  filename_col :: ustring
  text_mode :: text_mode
  text_col :: "ustring option"
  prefix :: ustring
  suffix :: ustring

definition NO_COLUMN :: ustring where
  "NO_COLUMN = [40, 50630, 51020, 41]"

text \<open>
  The text of a row. \<open>row.get(text_col, None)\<close> gives \<open>None\<close> for a label that is not in the
  row, and so does a \<open>text_col\<close> that was never set.
\<close>

definition select_text :: "options \<Rightarrow> ustring list \<Rightarrow> cell list \<Rightarrow> ustring option" where
  "select_text opts cols row =
     (case text_mode opts of
        SpecificColumn \<Rightarrow>
          (case (case text_col opts of None \<Rightarrow> None | Some col \<Rightarrow> series_get cols row col) of
             None \<Rightarrow> None
           | Some val \<Rightarrow> if nonempty_str val then Some (py_str val) else None)
      | FirstNonEmptyString \<Rightarrow> first_nonempty_str row)"

text \<open>
  The name of a row before the duplicate handling. \<open>base_name\<close> is the value of \<open>fname\<close>
  before prefix and suffix are added: \<open>row.get(filename_col, "")\<close> falls back to the empty
  string, and \<open>sanitize_filename(raw_name) or f"row_{i+1}"\<close> takes the row name when the
  sanitizer returns the empty string.
\<close>

definition base_name :: "options \<Rightarrow> ustring list \<Rightarrow> nat \<Rightarrow> cell list \<Rightarrow> ustring" where
  "base_name opts cols i row =
     (if filename_col opts \<noteq> NO_COLUMN then
        (let raw_name =
               strip (py_str (case series_get cols row (filename_col opts) of
                                None \<Rightarrow> CStr [] | Some val \<Rightarrow> val));
             fname = sanitize_filename_t2c raw_name
         in if fname \<noteq> [] then fname else row_name i)
      else row_name i)"

definition resolve_name :: "options \<Rightarrow> ustring list \<Rightarrow> nat \<Rightarrow> cell list \<Rightarrow> ustring" where
  "resolve_name opts cols i row =
     ensure_txt_suffix (prefix opts @ base_name opts cols i row @ suffix opts)"

text \<open>
  The state of the loop: the \<open>Counter\<close> \<open>used_counter\<close> (a missing key counts 0) and the
  entries written to \<open>mem_zip\<close>. \<open>rename\<close> is the duplicate handling of one name.
\<close>

record t2c_state =
  used_counter :: "ustring \<Rightarrow> nat"
  mem_zip :: "(ustring \<times> ustring) list"

definition rename :: "ustring \<Rightarrow> (ustring \<Rightarrow> nat) \<Rightarrow> ustring \<times> (ustring \<Rightarrow> nat)" where
  "rename fname used =
     (let (base, ext) = splitext fname;
          used' = used(base := used base + 1)
      in if used' base > 1 then (candidate_name base ext (used' base), used')
         else (fname, used'))"

fun convert_loop_t2c ::
  "options \<Rightarrow> ustring list \<Rightarrow> (nat \<times> cell list) list \<Rightarrow> t2c_state \<Rightarrow> t2c_state" where
  "convert_loop_t2c opts cols [] st = st"
| "convert_loop_t2c opts cols ((i, row) # rest) st =
     (case select_text opts cols row of
        None \<Rightarrow> convert_loop_t2c opts cols rest st
      | Some text_value \<Rightarrow>
          if text_value = [] then convert_loop_t2c opts cols rest st
          else
            (let (fname, used') = rename (resolve_name opts cols i row) (used_counter st)
             in convert_loop_t2c opts cols rest
                  (st\<lparr>used_counter := used', mem_zip := mem_zip st @ [(fname, text_value)]\<rparr>)))"

text \<open>
  The page stops with a warning on an empty table (\<open>df.empty\<close>: no row or no column);
  otherwise the run reports \<open>len(df)\<close> rows and offers the archive. This program keeps no
  count of the files, so \<open>files_created\<close> is the number of entries of the archive.
\<close>

datatype stop = EmptyCsv

definition convert_t2c :: "options \<Rightarrow> dataframe \<Rightarrow> stop + report" where
  "convert_t2c opts df =
     (if data df = [] \<or> columns df = [] then Inl EmptyCsv
      else
        (let st = convert_loop_t2c opts (columns df) (iterrows df)
                    \<lparr>used_counter = (\<lambda>base. 0), mem_zip = []\<rparr>
         in Inr \<lparr>rows_processed = length (data df), files_created = length (mem_zip st),
                  archive = mem_zip st\<rparr>))"

section \<open>Predicates used in the statements\<close>

text \<open>A string is trimmed when it neither starts nor ends with whitespace.\<close>

definition trimmed :: "ustring \<Rightarrow> bool" where
  "trimmed s \<longleftrightarrow> s = [] \<or> (\<not> isspace (hd s) \<and> \<not> isspace (last s))"

text \<open>A string is single-spaced when its only whitespace is isolated U+0020.\<close>

fun single_spaced :: "ustring \<Rightarrow> bool" where
  "single_spaced [] = True"
| "single_spaced (c # cs) =
     (if isspace c then c = 32 \<and> (cs = [] \<or> \<not> isspace (hd cs)) \<and> single_spaced cs
      else single_spaced cs)"

text \<open>
  The names that \<open>txt_to_csv.py\<close> resolves for the rows it writes (those with a text), in
  row order, before the duplicate handling.
\<close>

definition resolved_names :: "options \<Rightarrow> ustring list \<Rightarrow> (nat \<times> cell list) list \<Rightarrow> ustring list" where
  "resolved_names opts cols rows =
     map (\<lambda>(i, row). resolve_name opts cols i row)
       (filter (\<lambda>(i, row). select_text opts cols row \<noteq> None) rows)"

lemma dropWhile_hd_id: "xs = [] \<or> \<not> P (hd xs) \<Longrightarrow> dropWhile P xs = xs"
  by (cases xs) auto

lemma dropWhile_hd: "dropWhile P xs = [] \<or> \<not> P (hd (dropWhile P xs))"
  using hd_dropWhile by blast

lemma rev_nonempty_dropWhile: "dropWhile P (rev xs) \<noteq> [] \<Longrightarrow> xs \<noteq> []"
  by auto

lemma sub_ws_hd_nonspace:
  "t = [] \<or> \<not> isspace (hd t) \<Longrightarrow> sub_ws t = [] \<or> \<not> isspace (hd (sub_ws t))"
  by (cases t) auto

lemma strip_trimmed: "trimmed (strip s)"
proof -
  let ?a = "dropWhile isspace s"
  let ?b = "dropWhile isspace (rev ?a)"
  show ?thesis
  proof (cases "?b = []")
    case True
    then show ?thesis by (simp add: strip_def trimmed_def)
  next
    case False
    then have a: "?a \<noteq> []" using rev_nonempty_dropWhile [of isspace ?a] by blast
    have hb: "\<not> isspace (hd ?b)" using False hd_dropWhile by blast
    obtain us where us: "rev ?a = us @ ?b"
      by (metis takeWhile_dropWhile_id)
    then have "?a = rev ?b @ rev us" by (metis rev_append rev_rev_ident)
    then have "hd ?a = hd (rev ?b)" using False by (metis hd_append2 rev_is_Nil_conv)
    moreover have "\<not> isspace (hd ?a)" using a hd_dropWhile by blast
    ultimately have "\<not> isspace (hd (rev ?b))" by simp
    moreover have "last (rev ?b) = hd ?b" using False by (simp add: last_rev)
    ultimately show ?thesis using hb False by (simp add: strip_def trimmed_def)
  qed
qed

lemma strip_id: "trimmed s \<Longrightarrow> strip s = s"
proof -
  assume t: "trimmed s"
  show ?thesis
  proof (cases "s = []")
    case True
    then show ?thesis by (simp add: strip_def)
  next
    case False
    with t have h: "\<not> isspace (hd s)" and l: "\<not> isspace (last s)"
      by (auto simp: trimmed_def)
    from h False have 1: "dropWhile isspace s = s" by (simp add: dropWhile_hd_id)
    from l False have "\<not> isspace (hd (rev s))" by (simp add: hd_rev)
    then have 2: "dropWhile isspace (rev s) = rev s" by (simp add: dropWhile_hd_id)
    show ?thesis by (simp add: strip_def 1 2)
  qed
qed

lemma sub_ws_single_spaced_id: "single_spaced s \<Longrightarrow> sub_ws s = s"
proof (induction s rule: sub_ws.induct)
  case 1
  then show ?case by simp
next
  case (2 c cs)
  then show ?case by (auto simp: dropWhile_hd_id split: if_splits)
qed

lemma sub_ws_Nil_iff: "sub_ws s = [] \<longleftrightarrow> s = []"
  by (cases s) auto

lemma hd_sub_ws: "s \<noteq> [] \<Longrightarrow> \<not> isspace (hd s) \<Longrightarrow> hd (sub_ws s) = hd s"
  by (cases s) auto

lemma single_spaced_sub_ws: "single_spaced (sub_ws s)"
proof (induction s rule: sub_ws.induct)
  case 1
  then show ?case by simp
next
  case (2 c cs)
  show ?case
  proof (cases "isspace c")
    case True
    let ?t = "dropWhile isspace cs"
    have "sub_ws ?t = [] \<or> \<not> isspace (hd (sub_ws ?t))"
      using dropWhile_hd [of isspace cs] by (rule sub_ws_hd_nonspace)
    with True 2 show ?thesis by (simp add: isspace_def)
  next
    case False
    with 2 show ?thesis by simp
  qed
qed

lemma last_sub_ws:
  "s \<noteq> [] \<Longrightarrow> \<not> isspace (last s) \<Longrightarrow> last (sub_ws s) = last s"
proof (induction s rule: sub_ws.induct)
  case 1
  then show ?case by simp
next
  case (2 c cs)
  show ?case
  proof (cases "isspace c")
    case True
    let ?t = "dropWhile isspace cs"
    from True 2(3,4) have cs: "cs \<noteq> []" by auto
    with 2(4) have l: "\<not> isspace (last cs)" by simp
    have t: "?t \<noteq> []" using cs l
      by (metis dropWhile_eq_Nil_conv last_in_set)
    obtain us where "cs = us @ ?t" by (metis takeWhile_dropWhile_id)
    with t have lt: "last ?t = last cs" by (metis last_appendR)
    from 2(1) [OF True t] l lt have "last (sub_ws ?t) = last cs" by simp
    moreover from t have "sub_ws ?t \<noteq> []" by (simp only: sub_ws_Nil_iff not_False_eq_True)
    moreover from cs have "last (c # cs) = last cs" by simp
    moreover from True have "sub_ws (c # cs) = 32 # sub_ws ?t" by simp
    ultimately show ?thesis by (simp del: dropWhile_eq_Nil_conv sub_ws.simps)
  next
    case False
    show ?thesis
    proof (cases "cs = []")
      case True
      with False show ?thesis by simp
    next
      case cs: False
      with 2(4) have "\<not> isspace (last cs)" by simp
      from 2(2) [OF False cs this] False cs show ?thesis by (simp add: sub_ws_Nil_iff)
    qed
  qed
qed

lemma trimmed_sub_ws: "trimmed s \<Longrightarrow> trimmed (sub_ws s)"
  by (auto simp: trimmed_def sub_ws_Nil_iff hd_sub_ws last_sub_ws)

lemma trimmed_map:
  assumes "trimmed s" and f: "\<forall>c. \<not> isspace c \<longrightarrow> \<not> isspace (f c)"
  shows "trimmed (map f s)"
proof (cases "s = []")
  case True
  then show ?thesis by (simp add: trimmed_def)
next
  case False
  with assms(1) have "\<not> isspace (hd s)" and "\<not> isspace (last s)"
    by (simp_all add: trimmed_def)
  with f have "\<not> isspace (f (hd s))" and "\<not> isspace (f (last s))" by blast+
  with False show ?thesis by (simp add: trimmed_def hd_map last_map)
qed

lemma single_spaced_map:
  assumes "single_spaced s" and f: "\<forall>c. \<not> isspace c \<longrightarrow> \<not> isspace (f c)"
    and sp: "f 32 = 32"
  shows "single_spaced (map f s)"
  using assms(1)
proof (induction s)
  case Nil
  then show ?case by simp
next
  case (Cons c cs)
  from Cons.prems have tl: "single_spaced cs" by (simp split: if_splits)
  note ih = Cons.IH [OF tl]
  show ?case
  proof (cases "isspace c")
    case True
    with Cons.prems have c: "c = 32" and nx: "cs = [] \<or> \<not> isspace (hd cs)" by simp_all
    from c sp have fc: "f c = 32" by simp
    from nx f have "map f cs = [] \<or> \<not> isspace (hd (map f cs))"
      by (cases cs) auto
    with fc ih show ?thesis by simp
  next
    case False
    with f have "\<not> isspace (f c)" by blast
    with ih show ?thesis by simp
  qed
qed

lemma set_sub_ws: "set (sub_ws s) \<subseteq> insert 32 (set s)"
proof (induction s rule: sub_ws.induct)
  case 1
  then show ?case by simp
next
  case (2 c cs)
  have "set (dropWhile isspace cs) \<subseteq> set cs" by (simp add: set_dropWhileD subsetI)
  with 2 show ?case by (cases "isspace c") auto
qed

lemma ustr_untitled: "ustr ''untitled'' = [117, 110, 116, 105, 116, 108, 101, 100]"
  by (simp add: ustr_def)

lemma not_isspace_underscore: "\<not> isspace 95"
  by (simp add: isspace_def)

lemma isspace_32: "isspace 32"
  by (simp add: isspace_def)

lemma untitled_trimmed: "trimmed (ustr ''untitled'')"
  by (simp add: ustr_untitled trimmed_def isspace_def)

lemma untitled_single_spaced: "single_spaced (ustr ''untitled'')"
  by (simp add: ustr_untitled isspace_def)

lemma untitled_safe: "\<forall>c\<in>set (ustr ''untitled''). \<not> unsafe_char c"
  by (simp add: ustr_untitled unsafe_char_def)

lemma untitled_valid: "\<forall>c\<in>set (ustr ''untitled''). valid_char c"
  by (simp add: ustr_untitled valid_char_def)

lemma sanitize_filename_app_fixed:
  assumes "trimmed s" "single_spaced s" "\<forall>c\<in>set s. \<not> unsafe_char c" "s \<noteq> []"
  shows "sanitize_filename_app s = s"
proof -
  have "map (\<lambda>c. if unsafe_char c then 95 else c) s = s"
    using assms(3) by (simp add: map_idI)
  with assms show ?thesis
    by (simp add: sanitize_filename_app_def strip_id sub_ws_single_spaced_id)
qed

lemma sanitize_filename_t2c_fixed:
  assumes "trimmed s" "single_spaced s" "\<forall>c\<in>set s. valid_char c" "s \<noteq> []"
  shows "sanitize_filename_t2c s = s"
proof -
  have "map (\<lambda>c. if valid_char c then c else 95) s = s"
    using assms(3) by (simp add: map_idI)
  with assms show ?thesis
    by (simp add: sanitize_filename_t2c_def strip_id sub_ws_single_spaced_id)
qed

lemma unsafe_char_replaced: "\<not> unsafe_char (if unsafe_char c then 95 else c)"
  by (simp add: unsafe_char_def)

lemma valid_char_replaced: "valid_char (if valid_char c then c else 95)"
  by (simp add: valid_char_def)

lemma valid_replaced_nonspace: "\<not> isspace c \<Longrightarrow> \<not> isspace (if valid_char c then c else 95)"
  by (simp add: not_isspace_underscore)

lemma sanitize_filename_app_normal:
  "trimmed (sanitize_filename_app x) \<and> single_spaced (sanitize_filename_app x) \<and>
   (\<forall>c\<in>set (sanitize_filename_app x). \<not> unsafe_char c) \<and> sanitize_filename_app x \<noteq> []"
proof -
  let ?r = "\<lambda>c. if unsafe_char c then 95 else c"
  let ?s2 = "map ?r (strip x)"
  let ?s3 = "sub_ws ?s2"
  have t2: "trimmed ?s2"
    by (rule trimmed_map [OF strip_trimmed]) (simp add: not_isspace_underscore)
  have t3: "trimmed ?s3" using t2 by (rule trimmed_sub_ws)
  have s3: "single_spaced ?s3" by (rule single_spaced_sub_ws)
  have "\<forall>c\<in>set ?s2. \<not> unsafe_char c" by (auto simp: unsafe_char_def)
  moreover have "\<not> unsafe_char 32" by (simp add: unsafe_char_def)
  ultimately have u3: "\<forall>c\<in>set ?s3. \<not> unsafe_char c"
    using set_sub_ws [of ?s2] by blast
  show ?thesis
  proof (cases "?s3 = []")
    case True
    then have "sanitize_filename_app x = ustr ''untitled''"
      by (simp add: sanitize_filename_app_def)
    then show ?thesis
      using untitled_trimmed untitled_single_spaced untitled_safe
      by (simp add: ustr_untitled)
  next
    case False
    then have eq: "sanitize_filename_app x = ?s3"
      by (simp add: sanitize_filename_app_def)
    show ?thesis unfolding eq using t3 s3 u3 False by blast
  qed
qed

lemma sanitize_filename_t2c_normal:
  "trimmed (sanitize_filename_t2c x) \<and> single_spaced (sanitize_filename_t2c x) \<and>
   (\<forall>c\<in>set (sanitize_filename_t2c x). valid_char c) \<and> sanitize_filename_t2c x \<noteq> []"
proof -
  let ?v = "\<lambda>c. if valid_char c then c else 95"
  let ?s2 = "sub_ws (strip x)"
  let ?s3 = "map ?v ?s2"
  have nv: "\<forall>c. \<not> isspace c \<longrightarrow> \<not> isspace (?v c)"
    by (simp add: not_isspace_underscore)
  have t2: "trimmed ?s2" using strip_trimmed by (rule trimmed_sub_ws)
  have t3: "trimmed ?s3" using t2 nv by (rule trimmed_map)
  have "?v 32 = 32" by (simp add: valid_char_def)
  with single_spaced_sub_ws nv have s3: "single_spaced ?s3" by (rule single_spaced_map)
  have v3: "\<forall>c\<in>set ?s3. valid_char c" by (auto simp: valid_char_def)
  show ?thesis
  proof (cases "?s3 = []")
    case True
    then have "sanitize_filename_t2c x = ustr ''untitled''"
      by (simp add: sanitize_filename_t2c_def)
    then show ?thesis
      using untitled_trimmed untitled_single_spaced untitled_valid
      by (simp add: ustr_untitled)
  next
    case False
    then have eq: "sanitize_filename_t2c x = ?s3"
      by (simp add: sanitize_filename_t2c_def Let_def)
    show ?thesis unfolding eq using t3 s3 v3 False by blast
  qed
qed

text \<open>
  Claim C9: the filename sanitizer is idempotent. For every string, applying
  \<open>sanitize_filename\<close> to its own output gives that output again, in \<open>app.py\<close> and in
  \<open>txt_to_csv.py\<close>.
\<close>

theorem sanitize_filename_idempotent:
  "sanitize_filename_app (sanitize_filename_app x) = sanitize_filename_app x \<and>
   sanitize_filename_t2c (sanitize_filename_t2c x) = sanitize_filename_t2c x"
  using sanitize_filename_app_normal [of x] sanitize_filename_t2c_normal [of x]
  by (simp add: sanitize_filename_app_fixed sanitize_filename_t2c_fixed)

lemma sanitize_example:
  "sanitize_filename_app (ustr ''a/b:c*.txt'') = ustr ''a_b_c_.txt''"
  by (simp add: sanitize_filename_app_def strip_def ustr_def isspace_def unsafe_char_def)

section \<open>Decimal digits and candidate names\<close>

lemma str_nat_value: "foldl (\<lambda>a d. 10 * a + (d - 48)) 0 (str_nat n) = n"
proof (induction n rule: str_nat.induct)
  case (1 n)
  show ?case
  proof (cases "n < 10")
    case True
    then show ?thesis by (simp add: str_nat.simps [of n])
  next
    case False
    with 1 show ?thesis by (simp add: str_nat.simps [of n])
  qed
qed

lemma str_nat_inj: "str_nat i = str_nat j \<Longrightarrow> i = j"
  by (metis str_nat_value)

lemma candidate_name_inj: "candidate_name base ext i = candidate_name base ext j \<Longrightarrow> i = j"
  by (simp add: candidate_name_def str_nat_inj)

lemma finite_candidates: "finite used \<Longrightarrow> finite {j. candidate_name base ext j \<in> used}"
proof -
  assume "finite used"
  moreover have "inj (candidate_name base ext)"
    by (rule injI) (rule candidate_name_inj)
  ultimately have "finite (candidate_name base ext -` used)" by (rule finite_vimageI)
  then show ?thesis by (simp add: vimage_def)
qed

section \<open>The loop of \<open>ensure_unique\<close>\<close>

lemma ensure_unique_loop_free:
  "candidate_name base ext i \<notin> used \<Longrightarrow>
   ensure_unique_loop base ext used i =
     Some (candidate_name base ext i, insert (candidate_name base ext i) used)"
  by (simp add: ensure_unique_loop.simps [of base ext used i] Let_def)

lemma ensure_unique_loop_taken:
  "candidate_name base ext i \<in> used \<Longrightarrow>
   ensure_unique_loop base ext used i = ensure_unique_loop base ext used (i + 1)"
  by (simp add: ensure_unique_loop.simps [of base ext used i] Let_def)

lemma ensure_unique_loop_bounded:
  assumes "\<forall>j. candidate_name base ext j \<in> used \<longrightarrow> j < m"
  shows "\<exists>k. i \<le> k \<and> candidate_name base ext k \<notin> used \<and>
             (\<forall>j. i \<le> j \<and> j < k \<longrightarrow> candidate_name base ext j \<in> used) \<and>
             ensure_unique_loop base ext used i =
               Some (candidate_name base ext k, insert (candidate_name base ext k) used)"
proof (induction "m - i" arbitrary: i rule: less_induct)
  case less
  show ?case
  proof (cases "candidate_name base ext i \<in> used")
    case False
    then have "ensure_unique_loop base ext used i =
        Some (candidate_name base ext i, insert (candidate_name base ext i) used)"
      by (rule ensure_unique_loop_free)
    with False show ?thesis by (intro exI [of _ i]) auto
  next
    case True
    with assms have "i < m" by blast
    then have "m - (i + 1) < m - i" by simp
    from less [OF this] obtain k where k: "i + 1 \<le> k"
      "candidate_name base ext k \<notin> used"
      "\<forall>j. i + 1 \<le> j \<and> j < k \<longrightarrow> candidate_name base ext j \<in> used"
      "ensure_unique_loop base ext used (i + 1) =
         Some (candidate_name base ext k, insert (candidate_name base ext k) used)"
      by blast
    have "\<forall>j. i \<le> j \<and> j < k \<longrightarrow> candidate_name base ext j \<in> used"
    proof (intro allI impI)
      fix j assume j: "i \<le> j \<and> j < k"
      show "candidate_name base ext j \<in> used"
      proof (cases "j = i")
        case True
        with \<open>candidate_name base ext i \<in> used\<close> show ?thesis by simp
      next
        case False
        with j have "i + 1 \<le> j \<and> j < k" by simp
        with k(3) show ?thesis by blast
      qed
    qed
    moreover from True k(4) have "ensure_unique_loop base ext used i =
        Some (candidate_name base ext k, insert (candidate_name base ext k) used)"
      by (simp add: ensure_unique_loop_taken)
    moreover from k(1) have "i \<le> k" by simp
    ultimately show ?thesis using k(2) by blast
  qed
qed

lemma ensure_unique_loop_finite:
  assumes "finite used"
  shows "\<exists>k. i \<le> k \<and> candidate_name base ext k \<notin> used \<and>
             (\<forall>j. i \<le> j \<and> j < k \<longrightarrow> candidate_name base ext j \<in> used) \<and>
             ensure_unique_loop base ext used i =
               Some (candidate_name base ext k, insert (candidate_name base ext k) used)"
proof -
  from assms have "finite {j. candidate_name base ext j \<in> used}"
    by (rule finite_candidates)
  then obtain m where "\<forall>j\<in>{j. candidate_name base ext j \<in> used}. j < m"
    using finite_nat_set_iff_bounded by blast
  then have "\<forall>j. candidate_name base ext j \<in> used \<longrightarrow> j < m" by simp
  then show ?thesis by (rule ensure_unique_loop_bounded)
qed

lemma ensure_unique_finite:
  assumes "finite used"
  shows "\<exists>file_name. ensure_unique name used = Some (file_name, insert file_name used) \<and>
           file_name \<notin> used \<and> (name \<notin> used \<longrightarrow> file_name = name) \<and>
           (name \<in> used \<longrightarrow>
              (\<exists>k. 2 \<le> k \<and> file_name = candidate_name (fst (splitext name)) (snd (splitext name)) k))"
proof (cases "name \<in> used")
  case False
  then have "ensure_unique name used = Some (name, insert name used)"
    by (simp add: ensure_unique_def split: prod.splits)
  with False show ?thesis by simp
next
  case True
  obtain base ext where se: "splitext name = (base, ext)" by (cases "splitext name")
  from ensure_unique_loop_finite [OF assms, of 2 base ext] obtain k where k: "2 \<le> k"
    "candidate_name base ext k \<notin> used"
    "ensure_unique_loop base ext used 2 =
       Some (candidate_name base ext k, insert (candidate_name base ext k) used)"
    by blast
  from True se k(3) have "ensure_unique name used =
      Some (candidate_name base ext k, insert (candidate_name base ext k) used)"
    by (simp add: ensure_unique_def)
  with True k(1,2) se show ?thesis by auto
qed

text \<open>
  Claim C10: \<open>ensure_unique\<close> terminates. For every name and every finite set of used
  names, the loop that tries the candidates numbered 2, 3, ... reaches a number whose
  candidate is not in the set, all smaller numbers having been taken, and the function
  returns; when the name itself is free it returns at once.
\<close>

theorem ensure_unique_terminates:
  "finite used \<Longrightarrow>
   (\<exists>r. ensure_unique name used = Some r) \<and>
   (\<exists>k. 2 \<le> k \<and>
        candidate_name (fst (splitext name)) (snd (splitext name)) k \<notin> used \<and>
        (\<forall>j. 2 \<le> j \<and> j < k \<longrightarrow>
             candidate_name (fst (splitext name)) (snd (splitext name)) j \<in> used) \<and>
        ensure_unique_loop (fst (splitext name)) (snd (splitext name)) used 2 =
          Some (candidate_name (fst (splitext name)) (snd (splitext name)) k,
                insert (candidate_name (fst (splitext name)) (snd (splitext name)) k) used))"
  using ensure_unique_finite [of used name]
    ensure_unique_loop_finite [of used 2 "fst (splitext name)" "snd (splitext name)"]
  by blast

theorem ensure_unique_terminates_witness:
  "finite {ustr ''a.txt'', ustr ''a_2.txt''} \<and>
   (\<exists>r. ensure_unique (ustr ''a.txt'') {ustr ''a.txt'', ustr ''a_2.txt''} = Some r)"
  using ensure_unique_terminates [of "{ustr ''a.txt'', ustr ''a_2.txt''}" "ustr ''a.txt''"]
  by simp

section \<open>The conversion loop of \<open>app.py\<close>\<close>

lemma convert_loop_app_counts:
  "convert_loop_app cols fc rows st = Some (Inr st') \<Longrightarrow>
   created st' = created st + length (filter (\<lambda>(i, row). first_string_cell row \<noteq> None) rows) \<and>
   length (zf st') = length (zf st) + length (filter (\<lambda>(i, row). first_string_cell row \<noteq> None) rows)"
proof (induction rows arbitrary: st)
  case Nil
  then show ?case by simp
next
  case (Cons r rows)
  obtain i row where r: "r = (i, row)" by (cases r)
  show ?case
  proof (cases "first_string_cell row")
    case None
    with Cons r show ?thesis by simp
  next
    case (Some text_value)
    from Cons.prems r Some obtain raw_name file_name used' where
      raw: "raw_name_app cols fc i row = Inr raw_name" and
      eu: "ensure_unique (sanitize_filename_app raw_name) (used_names st) = Some (file_name, used')" and
      rest: "convert_loop_app cols fc rows
               (st\<lparr>used_names := used', zf := zf st @ [(file_name, text_value)],
                   created := created st + 1\<rparr>) = Some (Inr st')"
      by (auto split: sum.splits option.splits)
    from Cons.IH [OF rest] r Some show ?thesis by simp
  qed
qed

lemma convert_loop_app_invariant:
  assumes "finite (used_names st)" "fst ` set (zf st) \<subseteq> used_names st" "distinct (map fst (zf st))"
  shows "\<exists>res. convert_loop_app cols fc rows st = Some res \<and>
           (\<forall>st'. res = Inr st' \<longrightarrow>
              finite (used_names st') \<and> fst ` set (zf st') \<subseteq> used_names st' \<and>
              distinct (map fst (zf st')))"
  using assms
proof (induction rows arbitrary: st)
  case Nil
  then show ?case by simp
next
  case (Cons r rows)
  obtain i row where r: "r = (i, row)" by (cases r)
  show ?case
  proof (cases "first_string_cell row")
    case None
    with Cons r show ?thesis by simp
  next
    case (Some text_value)
    show ?thesis
    proof (cases "raw_name_app cols fc i row")
      case (Inl e)
      with r Some show ?thesis by simp
    next
      case (Inr raw_name)
      from ensure_unique_finite [OF Cons.prems(1), of "sanitize_filename_app raw_name"]
      obtain file_name where
        eu: "ensure_unique (sanitize_filename_app raw_name) (used_names st) =
               Some (file_name, insert file_name (used_names st))" and
        fresh: "file_name \<notin> used_names st"
        by blast
      let ?st = "st\<lparr>used_names := insert file_name (used_names st),
                      zf := zf st @ [(file_name, text_value)], created := created st + 1\<rparr>"
      have 1: "finite (used_names ?st)" using Cons.prems(1) by simp
      have 2: "fst ` set (zf ?st) \<subseteq> used_names ?st" using Cons.prems(2) by auto
      have 3: "distinct (map fst (zf ?st))" using Cons.prems(2,3) fresh by auto
      from Cons.IH [OF 1 2 3] r Some Inr eu show ?thesis by simp
    qed
  qed
qed

lemma filter_iterrows:
  "length (filter (\<lambda>(i, row). P row) (iterrows df)) = length (filter P (data df))"
proof -
  have m: "map snd (iterrows df) = data df" by (simp add: iterrows_def)
  have "filter (\<lambda>(i, row). P row) (iterrows df) = filter (P \<circ> snd) (iterrows df)"
    by (rule filter_cong) auto
  then have "length (filter (\<lambda>(i, row). P row) (iterrows df)) =
      length (map snd (filter (P \<circ> snd) (iterrows df)))"
    by simp
  also have "map snd (filter (P \<circ> snd) (iterrows df)) = filter P (map snd (iterrows df))"
    by (simp only: filter_map)
  finally show ?thesis by (simp only: m)
qed

lemma length_filter_not: "length (filter P xs) = length xs - length (filter (\<lambda>x. \<not> P x) xs)"
  using sum_length_filter_compl [of P xs] by simp

lemma convert_loop_app_init:
  "\<exists>res. convert_loop_app cols fc rows \<lparr>used_names = {}, created = 0, zf = []\<rparr> = Some res \<and>
     (\<forall>st'. res = Inr st' \<longrightarrow> distinct (map fst (zf st')))"
proof -
  let ?init = "\<lparr>used_names = {}, created = 0, zf = []\<rparr>"
  have "finite (used_names ?init)" "fst ` set (zf ?init) \<subseteq> used_names ?init"
    "distinct (map fst (zf ?init))"
    by simp_all
  from convert_loop_app_invariant [OF this, of cols fc rows] show ?thesis by blast
qed

lemma convert_app_total: "\<exists>res. convert_app df = Some res"
proof -
  obtain res where "convert_loop_app (columns df) (find_filename_col (columns df)) (iterrows df)
      \<lparr>used_names = {}, created = 0, zf = []\<rparr> = Some res"
    using convert_loop_app_init by blast
  then show ?thesis by (cases res) (simp_all add: convert_app_def)
qed

lemma convert_app_distinct:
  assumes "convert_app df = Some (Inr rep)"
  shows "distinct (map fst (archive rep))"
proof -
  let ?init = "\<lparr>used_names = {}, created = 0, zf = []\<rparr>"
  from assms obtain st' where
    loop: "convert_loop_app (columns df) (find_filename_col (columns df)) (iterrows df) ?init
             = Some (Inr st')" and rep: "archive rep = zf st'"
    by (auto simp: convert_app_def split: option.splits sum.splits)
  from convert_loop_app_init [of "columns df" "find_filename_col (columns df)" "iterrows df"]
    loop have "distinct (map fst (zf st'))" by auto
  with rep show ?thesis by simp
qed

section \<open>The conversion loop of \<open>txt_to_csv.py\<close>\<close>

lemma strip_Nil: "strip [] = []"
  by (simp add: strip_def)

lemma nonempty_str_py_str: "nonempty_str val \<Longrightarrow> py_str val \<noteq> []"
  by (cases val) (auto simp: strip_Nil)

lemma first_nonempty_str_not_empty: "first_nonempty_str row \<noteq> Some []"
proof (induction row)
  case Nil
  then show ?case by simp
next
  case (Cons val row)
  then show ?case by (cases val) auto
qed

lemma select_text_not_empty: "select_text opts cols row \<noteq> Some []"
  by (auto simp: select_text_def first_nonempty_str_not_empty nonempty_str_py_str
      split: text_mode.splits option.splits)

lemma convert_loop_t2c_length:
  "length (mem_zip (convert_loop_t2c opts cols rows st)) =
   length (mem_zip st) + length (filter (\<lambda>(i, row). select_text opts cols row \<noteq> None) rows)"
proof (induction rows arbitrary: st)
  case Nil
  then show ?case by simp
next
  case (Cons r rows)
  obtain i row where r: "r = (i, row)" by (cases r)
  show ?case
  proof (cases "select_text opts cols row")
    case None
    with Cons r show ?thesis by simp
  next
    case (Some text_value)
    with select_text_not_empty [of opts cols row] have ne: "text_value \<noteq> []" by auto
    obtain fname used' where rn: "rename (resolve_name opts cols i row) (used_counter st) = (fname, used')"
      by (cases "rename (resolve_name opts cols i row) (used_counter st)")
    from Cons.IH r Some ne rn show ?thesis by simp
  qed
qed

text \<open>
  Claim C8: for every run that completes, the reported number of processed rows is the
  number of rows of the table, and the number of files created is the number of entries of
  the archive, which is the number of rows minus the number of rows for which the text
  selection found nothing. In \<open>app.py\<close> the counter \<open>created\<close> is reported; \<open>txt_to_csv.py\<close>
  reports the rows only, and its archive has that many entries.
\<close>

theorem skip_accounting:
  "(convert_app df = Some (Inr rep) \<longrightarrow>
      rows_processed rep = length (data df) \<and>
      files_created rep = length (archive rep) \<and>
      files_created rep =
        rows_processed rep - length (filter (\<lambda>row. first_string_cell row = None) (data df))) \<and>
   (convert_t2c opts df = Inr rep' \<longrightarrow>
      rows_processed rep' = length (data df) \<and>
      files_created rep' = length (archive rep') \<and>
      files_created rep' =
        rows_processed rep' -
          length (filter (\<lambda>row. select_text opts (columns df) row = None) (data df)))"
proof (intro conjI impI)
  let ?init = "\<lparr>used_names = {}, created = 0, zf = []\<rparr>"
  assume a: "convert_app df = Some (Inr rep)"
  then obtain st' where
    loop: "convert_loop_app (columns df) (find_filename_col (columns df)) (iterrows df) ?init
             = Some (Inr st')" and
    rep: "rep = \<lparr>rows_processed = length (data df), files_created = created st',
                 archive = zf st'\<rparr>"
    by (auto simp: convert_app_def split: option.splits sum.splits)
  from convert_loop_app_counts [OF loop]
  have c: "created st' = length (filter (\<lambda>row. first_string_cell row \<noteq> None) (data df))"
    and z: "length (zf st') = length (filter (\<lambda>row. first_string_cell row \<noteq> None) (data df))"
    by (simp_all add: filter_iterrows)
  show "rows_processed rep = length (data df)" using rep by simp
  show "files_created rep = length (archive rep)" using rep c z by simp
  show "files_created rep =
        rows_processed rep - length (filter (\<lambda>row. first_string_cell row = None) (data df))"
    using rep c length_filter_not [of "\<lambda>row. first_string_cell row \<noteq> None" "data df"] by simp
next
  let ?init = "\<lparr>used_counter = (\<lambda>base. 0), mem_zip = []\<rparr>"
  let ?st = "convert_loop_t2c opts (columns df) (iterrows df) ?init"
  assume a: "convert_t2c opts df = Inr rep'"
  then have rep: "rep' = \<lparr>rows_processed = length (data df), files_created = length (mem_zip ?st),
                 archive = mem_zip ?st\<rparr>"
    by (auto simp: convert_t2c_def Let_def split: if_splits)
  have z: "length (mem_zip ?st) =
      length (filter (\<lambda>row. select_text opts (columns df) row \<noteq> None) (data df))"
    by (simp add: convert_loop_t2c_length filter_iterrows)
  show "rows_processed rep' = length (data df)" using rep by simp
  show "files_created rep' = length (archive rep')" using rep by simp
  show "files_created rep' =
        rows_processed rep' -
          length (filter (\<lambda>row. select_text opts (columns df) row = None) (data df))"
    using rep z
      length_filter_not [of "\<lambda>row. select_text opts (columns df) row \<noteq> None" "data df"]
    by simp
qed

section \<open>Evaluating the programs on concrete tables\<close>

lemmas eval_str = ustr_def lower_def strip_def isspace_def str_nat.simps endswith_def
  splitext_def rfind_def skip_dots.simps candidate_name_def row_name_def Let_def

lemmas eval_app = eval_str convert_app_def find_filename_col_def iterrows_def raw_name_app_def
  series_get_def sanitize_filename_app_def unsafe_char_def ensure_unique_def
  ensure_unique_loop_taken ensure_unique_loop_free

lemmas eval_t2c = eval_str convert_t2c_def iterrows_def select_text_def base_name_def
  resolve_name_def series_get_def sanitize_filename_t2c_def valid_char_def ensure_txt_suffix_def
  rename_def NO_COLUMN_def

theorem skip_accounting_witness:
  "convert_app \<lparr>columns = [ustr ''filename'', ustr ''note''],
      data = [[CStr (ustr ''x''), CStr (ustr ''hello'')], [CStr (ustr ''x''), CNum (ustr ''1'')],
              [CMissing, CMissing]]\<rparr> =
     Some (Inr \<lparr>rows_processed = 3, files_created = 2,
       archive = [(ustr ''x.txt'', ustr ''x''), (ustr ''x_2.txt'', ustr ''x'')]\<rparr>) \<and>
   convert_t2c \<lparr>filename_col = ustr ''filename'', text_mode = FirstNonEmptyString,
       text_col = None, prefix = [], suffix = []\<rparr>
     \<lparr>columns = [ustr ''filename'', ustr ''note''],
      data = [[CStr (ustr ''x''), CStr (ustr ''hello'')], [CStr (ustr ''x''), CNum (ustr ''1'')],
              [CMissing, CMissing]]\<rparr> =
     Inr \<lparr>rows_processed = 3, files_created = 2,
       archive = [(ustr ''x.txt'', ustr ''x''), (ustr ''x_2.txt'', ustr ''x'')]\<rparr> \<and>
   (2::nat) = 3 - length (filter (\<lambda>row. first_string_cell row = None)
      [[CStr (ustr ''x''), CStr (ustr ''hello'')], [CStr (ustr ''x''), CNum (ustr ''1'')],
       [CMissing, CMissing]])"
proof -
  let ?df = "\<lparr>columns = [ustr ''filename'', ustr ''note''],
      data = [[CStr (ustr ''x''), CStr (ustr ''hello'')], [CStr (ustr ''x''), CNum (ustr ''1'')],
              [CMissing, CMissing]]\<rparr>"
  let ?opts = "\<lparr>filename_col = ustr ''filename'', text_mode = FirstNonEmptyString,
       text_col = None, prefix = [], suffix = []\<rparr>"
  let ?rep = "\<lparr>rows_processed = 3, files_created = 2,
       archive = [(ustr ''x.txt'', ustr ''x''), (ustr ''x_2.txt'', ustr ''x'')]\<rparr>"
  have a: "convert_app ?df = Some (Inr ?rep)" by (simp add: eval_app)
  have b: "convert_t2c ?opts ?df = Inr ?rep" by (simp add: eval_t2c)
  from skip_accounting [of ?df ?rep ?opts ?rep] a b show ?thesis by simp
qed

text \<open>
  Claim C1, on \<open>txt_to_csv.py\<close>: three rows whose filename cells are \<open>x\<close>, \<open>x\<close> and \<open>x_2\<close>.
  The second row is renamed to \<open>x_2.txt\<close> by the counter of the stem \<open>x\<close>; the third row has
  the stem \<open>x_2\<close>, seen for the first time, and keeps \<open>x_2.txt\<close>: the archive gets two
  entries of that name.
\<close>

theorem counter_rename_duplicate:
  "convert_t2c \<lparr>filename_col = ustr ''filename'', text_mode = FirstNonEmptyString,
       text_col = None, prefix = [], suffix = []\<rparr>
     \<lparr>columns = [ustr ''filename''],
      data = [[CStr (ustr ''x'')], [CStr (ustr ''x'')], [CStr (ustr ''x_2'')]]\<rparr> =
     Inr \<lparr>rows_processed = 3, files_created = 3,
       archive = [(ustr ''x.txt'', ustr ''x''), (ustr ''x_2.txt'', ustr ''x''),
                  (ustr ''x_2.txt'', ustr ''x_2'')]\<rparr>"
  by (simp add: eval_t2c)

section \<open>Which row keeps its name\<close>

lemma convert_loop_app_append:
  "convert_loop_app cols fc (xs @ ys) st =
     (case convert_loop_app cols fc xs st of
        None \<Rightarrow> None
      | Some (Inl e) \<Rightarrow> Some (Inl e)
      | Some (Inr st1) \<Rightarrow> convert_loop_app cols fc ys st1)"
proof (induction xs arbitrary: st)
  case Nil
  then show ?case by simp
next
  case (Cons r xs)
  obtain i row where r: "r = (i, row)" by (cases r)
  show ?case unfolding r
    by (simp add: Cons.IH split: option.splits sum.splits prod.splits)
qed

lemma convert_loop_app_used:
  assumes "used_names st = fst ` set (zf st)"
    and "convert_loop_app cols fc rows st = Some (Inr st')"
  shows "used_names st' = fst ` set (zf st')"
  using assms
proof (induction rows arbitrary: st)
  case Nil
  then show ?case by simp
next
  case (Cons r rows)
  obtain i row where r: "r = (i, row)" by (cases r)
  show ?case
  proof (cases "first_string_cell row")
    case None
    with Cons r show ?thesis by simp
  next
    case (Some text_value)
    from Cons.prems(2) r Some obtain raw_name where
      raw: "raw_name_app cols fc i row = Inr raw_name"
      by (auto split: sum.splits)
    have "finite (used_names st)" using Cons.prems(1) by simp
    from ensure_unique_finite [OF this, of "sanitize_filename_app raw_name"]
    obtain file_name where
      eu: "ensure_unique (sanitize_filename_app raw_name) (used_names st) =
             Some (file_name, insert file_name (used_names st))"
      by blast
    let ?st = "st\<lparr>used_names := insert file_name (used_names st),
                    zf := zf st @ [(file_name, text_value)], created := created st + 1\<rparr>"
    have 1: "used_names ?st = fst ` set (zf ?st)" using Cons.prems(1) by simp
    from Cons.prems(2) r Some raw eu
    have 2: "convert_loop_app cols fc rows ?st = Some (Inr st')" by simp
    from Cons.IH [OF 1 2] show ?thesis .
  qed
qed

lemma rename_fst:
  "fst (rename fname used) =
     (if used (fst (splitext fname)) = 0 then fname
      else candidate_name (fst (splitext fname)) (snd (splitext fname))
             (used (fst (splitext fname)) + 1))"
  by (simp add: rename_def Let_def split: prod.splits)

lemma rename_snd:
  "snd (rename fname used) = used(fst (splitext fname) := used (fst (splitext fname)) + 1)"
  by (simp add: rename_def Let_def split: prod.splits)

lemma convert_loop_t2c_append:
  "convert_loop_t2c opts cols (xs @ ys) st =
     convert_loop_t2c opts cols ys (convert_loop_t2c opts cols xs st)"
proof (induction xs arbitrary: st)
  case Nil
  then show ?case by simp
next
  case (Cons r xs)
  obtain i row where r: "r = (i, row)" by (cases r)
  show ?case unfolding r
    by (simp add: Cons.IH Let_def split: option.splits prod.splits)
qed

lemma convert_loop_t2c_counter:
  "used_counter (convert_loop_t2c opts cols rows st) b =
     used_counter st b + count_list (map (fst \<circ> splitext) (resolved_names opts cols rows)) b"
proof (induction rows arbitrary: st)
  case Nil
  then show ?case by (simp add: resolved_names_def)
next
  case (Cons r rows)
  obtain i row where r: "r = (i, row)" by (cases r)
  show ?case
  proof (cases "select_text opts cols row")
    case None
    with Cons r show ?thesis by (simp add: resolved_names_def)
  next
    case (Some text_value)
    with select_text_not_empty [of opts cols row] have ne: "text_value \<noteq> []" by auto
    let ?name = "resolve_name opts cols i row"
    obtain fname used' where rn: "rename ?name (used_counter st) = (fname, used')"
      by (cases "rename ?name (used_counter st)")
    with rename_snd [of ?name "used_counter st"]
    have u: "used' = (used_counter st)(fst (splitext ?name) :=
                used_counter st (fst (splitext ?name)) + 1)"
      by simp
    from r Some ne rn Cons.IH [of "st\<lparr>used_counter := used',
          mem_zip := mem_zip st @ [(fname, text_value)]\<rparr>"] u
    show ?thesis by (simp add: resolved_names_def)
  qed
qed

lemma app_next_row:
  assumes loop: "convert_loop_app cols fc rows1 \<lparr>used_names = {}, created = 0, zf = []\<rparr> = Some (Inr st1)"
    and tv: "first_string_cell row = Some text_value"
    and raw: "raw_name_app cols fc i row = Inr raw_name"
  shows "\<exists>file_name.
       convert_loop_app cols fc (rows1 @ [(i, row)]) \<lparr>used_names = {}, created = 0, zf = []\<rparr> =
         Some (Inr (st1\<lparr>used_names := insert file_name (used_names st1),
                         zf := zf st1 @ [(file_name, text_value)],
                         created := created st1 + 1\<rparr>)) \<and>
       file_name \<notin> fst ` set (zf st1) \<and>
       (sanitize_filename_app raw_name \<notin> fst ` set (zf st1) \<longrightarrow>
          file_name = sanitize_filename_app raw_name) \<and>
       (sanitize_filename_app raw_name \<in> fst ` set (zf st1) \<longrightarrow>
          (\<exists>k. 2 \<le> k \<and>
             file_name = candidate_name (fst (splitext (sanitize_filename_app raw_name)))
                           (snd (splitext (sanitize_filename_app raw_name))) k))"
proof -
  let ?init = "\<lparr>used_names = {}, created = 0, zf = []\<rparr>"
  let ?name = "sanitize_filename_app raw_name"
  have "used_names ?init = fst ` set (zf ?init)" by simp
  from convert_loop_app_used [OF this loop]
  have used: "used_names st1 = fst ` set (zf st1)" .
  then have "finite (used_names st1)" by simp
  from ensure_unique_finite [OF this, of ?name] obtain file_name where
    eu: "ensure_unique ?name (used_names st1) = Some (file_name, insert file_name (used_names st1))"
    and fresh: "file_name \<notin> used_names st1"
    and keep: "?name \<notin> used_names st1 \<longrightarrow> file_name = ?name"
    and numbered: "?name \<in> used_names st1 \<longrightarrow>
       (\<exists>k. 2 \<le> k \<and> file_name = candidate_name (fst (splitext ?name)) (snd (splitext ?name)) k)"
    by blast
  have step: "convert_loop_app cols fc [(i, row)] st1 =
      Some (Inr (st1\<lparr>used_names := insert file_name (used_names st1),
                      zf := zf st1 @ [(file_name, text_value)],
                      created := created st1 + 1\<rparr>))"
    by (simp add: tv raw eu)
  have "convert_loop_app cols fc (rows1 @ [(i, row)]) ?init =
      convert_loop_app cols fc [(i, row)] st1"
    by (simp only: convert_loop_app_append loop option.case sum.case)
  then have run: "convert_loop_app cols fc (rows1 @ [(i, row)]) ?init =
      Some (Inr (st1\<lparr>used_names := insert file_name (used_names st1),
                      zf := zf st1 @ [(file_name, text_value)],
                      created := created st1 + 1\<rparr>))"
    by (simp only: step)
  from fresh keep numbered have
    "file_name \<notin> fst ` set (zf st1)"
    "?name \<notin> fst ` set (zf st1) \<longrightarrow> file_name = ?name"
    "?name \<in> fst ` set (zf st1) \<longrightarrow>
       (\<exists>k. 2 \<le> k \<and> file_name = candidate_name (fst (splitext ?name)) (snd (splitext ?name)) k)"
    unfolding used by blast+
  with run show ?thesis by blast
qed

lemma t2c_next_row:
  assumes tv: "select_text opts cols row = Some text_value"
  shows "mem_zip (convert_loop_t2c opts cols (rows1 @ [(i, row)])
               \<lparr>used_counter = (\<lambda>base. 0), mem_zip = []\<rparr>) =
      mem_zip (convert_loop_t2c opts cols rows1 \<lparr>used_counter = (\<lambda>base. 0), mem_zip = []\<rparr>) @
      [(if fst (splitext (resolve_name opts cols i row)) \<notin>
            set (map (fst \<circ> splitext) (resolved_names opts cols rows1))
        then resolve_name opts cols i row
        else candidate_name (fst (splitext (resolve_name opts cols i row)))
               (snd (splitext (resolve_name opts cols i row)))
               (count_list (map (fst \<circ> splitext) (resolved_names opts cols rows1))
                  (fst (splitext (resolve_name opts cols i row))) + 1),
        text_value)]"
proof -
  let ?init = "\<lparr>used_counter = (\<lambda>base. 0), mem_zip = []\<rparr>"
  let ?st1 = "convert_loop_t2c opts cols rows1 ?init"
  let ?name = "resolve_name opts cols i row"
  let ?stems = "map (fst \<circ> splitext) (resolved_names opts cols rows1)"
  from tv select_text_not_empty [of opts cols row] have ne: "text_value \<noteq> []" by auto
  have c: "used_counter ?st1 (fst (splitext ?name)) = count_list ?stems (fst (splitext ?name))"
    by (simp add: convert_loop_t2c_counter)
  have z: "(count_list ?stems (fst (splitext ?name)) = 0) =
      (fst (splitext ?name) \<notin> set ?stems)"
    by (rule count_list_0_iff)
  obtain fname used' where rn: "rename ?name (used_counter ?st1) = (fname, used')"
    by (cases "rename ?name (used_counter ?st1)")
  from rename_fst [of ?name "used_counter ?st1"]
  have f: "fname = (if fst (splitext ?name) \<notin> set ?stems then ?name
       else candidate_name (fst (splitext ?name)) (snd (splitext ?name))
              (count_list ?stems (fst (splitext ?name)) + 1))"
    unfolding rn c z by simp
  have step: "mem_zip (convert_loop_t2c opts cols [(i, row)] ?st1) =
      mem_zip ?st1 @ [(fname, text_value)]"
    by (simp add: tv ne rn)
  show ?thesis
    unfolding convert_loop_t2c_append step f ..
qed

text \<open>
  Claim C7, as the programs have it. Let a row with a text follow any rows already
  processed in the run. In \<open>app.py\<close> the row receives its sanitized name unchanged exactly
  when no earlier row was given that name (whether as its own name or as a renamed one);
  otherwise it receives a numbered candidate that no earlier row was given. In
  \<open>txt_to_csv.py\<close> the row receives its resolved name unchanged exactly when no earlier
  written row resolved to a name with the same stem; otherwise it receives the stem
  numbered with one plus the number of such earlier rows.
\<close>

theorem first_occurrence_keeps_name:
  "(convert_loop_app cols fc rows1 \<lparr>used_names = {}, created = 0, zf = []\<rparr> = Some (Inr st1) \<and>
    first_string_cell row = Some text_value \<and> raw_name_app cols fc i row = Inr raw_name \<longrightarrow>
    (\<exists>file_name.
       convert_loop_app cols fc (rows1 @ [(i, row)]) \<lparr>used_names = {}, created = 0, zf = []\<rparr> =
         Some (Inr (st1\<lparr>used_names := insert file_name (used_names st1),
                         zf := zf st1 @ [(file_name, text_value)],
                         created := created st1 + 1\<rparr>)) \<and>
       file_name \<notin> fst ` set (zf st1) \<and>
       (sanitize_filename_app raw_name \<notin> fst ` set (zf st1) \<longrightarrow>
          file_name = sanitize_filename_app raw_name) \<and>
       (sanitize_filename_app raw_name \<in> fst ` set (zf st1) \<longrightarrow>
          (\<exists>k. 2 \<le> k \<and>
             file_name = candidate_name (fst (splitext (sanitize_filename_app raw_name)))
                           (snd (splitext (sanitize_filename_app raw_name))) k)))) \<and>
   (select_text opts cols row = Some text_value \<longrightarrow>
    mem_zip (convert_loop_t2c opts cols (rows1 @ [(i, row)])
               \<lparr>used_counter = (\<lambda>base. 0), mem_zip = []\<rparr>) =
      mem_zip (convert_loop_t2c opts cols rows1 \<lparr>used_counter = (\<lambda>base. 0), mem_zip = []\<rparr>) @
      [(if fst (splitext (resolve_name opts cols i row)) \<notin>
            set (map (fst \<circ> splitext) (resolved_names opts cols rows1))
        then resolve_name opts cols i row
        else candidate_name (fst (splitext (resolve_name opts cols i row)))
               (snd (splitext (resolve_name opts cols i row)))
               (count_list (map (fst \<circ> splitext) (resolved_names opts cols rows1))
                  (fst (splitext (resolve_name opts cols i row))) + 1),
        text_value)])"
  using app_next_row [of cols fc rows1 st1 row text_value i raw_name]
    t2c_next_row [of opts cols row text_value rows1 i]
  by blast

theorem first_occurrence_keeps_name_witness:
  "convert_loop_app [ustr ''filename''] (Some (ustr ''filename'')) [(0, [CStr (ustr ''x'')])]
     \<lparr>used_names = {}, created = 0, zf = []\<rparr> =
     Some (Inr \<lparr>used_names = {ustr ''x.txt''}, created = 1, zf = [(ustr ''x.txt'', ustr ''x'')]\<rparr>) \<and>
   first_string_cell [CStr (ustr ''x'')] = Some (ustr ''x'') \<and>
   raw_name_app [ustr ''filename''] (Some (ustr ''filename'')) 1 [CStr (ustr ''x'')] =
     Inr (ustr ''x.txt'') \<and>
   select_text \<lparr>filename_col = ustr ''filename'', text_mode = FirstNonEmptyString,
       text_col = None, prefix = [], suffix = []\<rparr> [ustr ''filename''] [CStr (ustr ''x'')] =
     Some (ustr ''x'') \<and>
   (\<exists>file_name.
      convert_loop_app [ustr ''filename''] (Some (ustr ''filename''))
        ([(0, [CStr (ustr ''x'')])] @ [(1, [CStr (ustr ''x'')])])
        \<lparr>used_names = {}, created = 0, zf = []\<rparr> =
        Some (Inr (\<lparr>used_names = {ustr ''x.txt''}, created = 1,
                     zf = [(ustr ''x.txt'', ustr ''x'')]\<rparr>
                   \<lparr>used_names := insert file_name
                      (used_names \<lparr>used_names = {ustr ''x.txt''}, created = 1,
                                    zf = [(ustr ''x.txt'', ustr ''x'')]\<rparr>),
                    zf := zf \<lparr>used_names = {ustr ''x.txt''}, created = 1,
                              zf = [(ustr ''x.txt'', ustr ''x'')]\<rparr> @ [(file_name, ustr ''x'')],
                    created := created \<lparr>used_names = {ustr ''x.txt''}, created = 1,
                              zf = [(ustr ''x.txt'', ustr ''x'')]\<rparr> + 1\<rparr>)) \<and>
      file_name \<notin> fst ` set (zf \<lparr>used_names = {ustr ''x.txt''}, created = 1,
                              zf = [(ustr ''x.txt'', ustr ''x'')]\<rparr>))"
proof -
  let ?cols = "[ustr ''filename'']"
  let ?fc = "Some (ustr ''filename'')"
  let ?row = "[CStr (ustr ''x'')]"
  let ?st1 = "\<lparr>used_names = {ustr ''x.txt''}, created = 1, zf = [(ustr ''x.txt'', ustr ''x'')]\<rparr>"
  let ?opts = "\<lparr>filename_col = ustr ''filename'', text_mode = FirstNonEmptyString,
       text_col = None, prefix = [], suffix = []\<rparr>"
  have h1: "convert_loop_app ?cols ?fc [(0, ?row)] \<lparr>used_names = {}, created = 0, zf = []\<rparr> =
      Some (Inr ?st1)"
    by (simp add: eval_app)
  have h2: "first_string_cell ?row = Some (ustr ''x'')" by (simp add: eval_app)
  have h3: "raw_name_app ?cols ?fc 1 ?row = Inr (ustr ''x.txt'')" by (simp add: eval_app)
  have h4: "select_text ?opts ?cols ?row = Some (ustr ''x'')" by (simp add: eval_t2c)
  from first_occurrence_keeps_name [of ?cols ?fc "[(0, ?row)]" ?st1 ?row "ustr ''x''" 1
      "ustr ''x.txt''" ?opts] h1 h2 h3 h4
  show ?thesis by blast
qed

text \<open>
  Claim C7 as stated fails in \<open>app.py\<close>: with the filename cells \<open>x\<close>, \<open>x\<close> and \<open>x_2\<close>, the
  third row is the first whose name is \<open>x_2.txt\<close>, yet the second row was renamed to
  \<open>x_2.txt\<close> before it, so the third row is written as \<open>x_2_2.txt\<close>.
\<close>

theorem first_occurrence_renamed:
  "raw_name_app [ustr ''filename''] (Some (ustr ''filename'')) 2 [CStr (ustr ''x_2'')] =
     Inr (ustr ''x_2.txt'') \<and>
   sanitize_filename_app (ustr ''x_2.txt'') = ustr ''x_2.txt'' \<and>
   convert_app \<lparr>columns = [ustr ''filename''],
      data = [[CStr (ustr ''x'')], [CStr (ustr ''x'')], [CStr (ustr ''x_2'')]]\<rparr> =
     Some (Inr \<lparr>rows_processed = 3, files_created = 3,
       archive = [(ustr ''x.txt'', ustr ''x''), (ustr ''x_2.txt'', ustr ''x''),
                  (ustr ''x_2_2.txt'', ustr ''x_2'')]\<rparr>)"
  by (simp add: eval_app)

section \<open>Text selection\<close>

lemma find_Some_decomp:
  "find P xs = Some x \<longleftrightarrow> (\<exists>pre post. xs = pre @ x # post \<and> P x \<and> (\<forall>v\<in>set pre. \<not> P v))"
proof (induction xs)
  case Nil
  then show ?case by simp
next
  case (Cons y ys)
  show ?case
  proof (cases "P y")
    case True
    have "(\<exists>pre post. y # ys = pre @ x # post \<and> P x \<and> (\<forall>v\<in>set pre. \<not> P v)) \<longleftrightarrow> x = y"
    proof
      assume "\<exists>pre post. y # ys = pre @ x # post \<and> P x \<and> (\<forall>v\<in>set pre. \<not> P v)"
      then obtain pre post where d: "y # ys = pre @ x # post" "\<forall>v\<in>set pre. \<not> P v" by blast
      show "x = y"
      proof (cases pre)
        case Nil
        with d show ?thesis by simp
      next
        case (Cons a as)
        with d True show ?thesis by auto
      qed
    next
      assume "x = y"
      with True have "y # ys = [] @ x # ys \<and> P x \<and> (\<forall>v\<in>set []. \<not> P v)" by simp
      then show "\<exists>pre post. y # ys = pre @ x # post \<and> P x \<and> (\<forall>v\<in>set pre. \<not> P v)" by blast
    qed
    with True show ?thesis by auto
  next
    case False
    have "(\<exists>pre post. y # ys = pre @ x # post \<and> P x \<and> (\<forall>v\<in>set pre. \<not> P v)) \<longleftrightarrow>
          (\<exists>pre post. ys = pre @ x # post \<and> P x \<and> (\<forall>v\<in>set pre. \<not> P v))"
    proof
      assume "\<exists>pre post. y # ys = pre @ x # post \<and> P x \<and> (\<forall>v\<in>set pre. \<not> P v)"
      then obtain pre post where d: "y # ys = pre @ x # post" "P x" "\<forall>v\<in>set pre. \<not> P v"
        by blast
      show "\<exists>pre post. ys = pre @ x # post \<and> P x \<and> (\<forall>v\<in>set pre. \<not> P v)"
      proof (cases pre)
        case Nil
        with d False show ?thesis by simp
      next
        case (Cons a as)
        with d have "ys = as @ x # post \<and> P x \<and> (\<forall>v\<in>set as. \<not> P v)" by simp
        then show ?thesis by blast
      qed
    next
      assume "\<exists>pre post. ys = pre @ x # post \<and> P x \<and> (\<forall>v\<in>set pre. \<not> P v)"
      then obtain pre post where d: "ys = pre @ x # post" "P x" "\<forall>v\<in>set pre. \<not> P v"
        by blast
      with False have "y # ys = (y # pre) @ x # post \<and> P x \<and> (\<forall>v\<in>set (y # pre). \<not> P v)"
        by simp
      then show "\<exists>pre post. y # ys = pre @ x # post \<and> P x \<and> (\<forall>v\<in>set pre. \<not> P v)"
        by blast
    qed
    with False Cons.IH show ?thesis by simp
  qed
qed

lemma first_string_cell_find:
  "first_string_cell row = map_option py_str (find nonempty_str row)"
  by (induction row) simp_all

lemma first_nonempty_str_find:
  "first_nonempty_str row = map_option (strip \<circ> py_str) (find nonempty_str row)"
  by (induction row) simp_all

lemma nonempty_str_iff: "nonempty_str val \<longleftrightarrow> (\<exists>s. val = CStr s \<and> strip s \<noteq> [])"
  by (cases val) simp_all

lemma first_string_cell_Some:
  "first_string_cell row = Some t \<longleftrightarrow>
     (\<exists>pre s post. row = pre @ CStr s # post \<and> (\<forall>v\<in>set pre. \<not> nonempty_str v) \<and>
        strip s \<noteq> [] \<and> t = s)"
proof
  assume "first_string_cell row = Some t"
  then obtain x where "find nonempty_str row = Some x" "py_str x = t"
    by (auto simp: first_string_cell_find)
  then obtain pre post where d: "row = pre @ x # post" "nonempty_str x"
    "\<forall>v\<in>set pre. \<not> nonempty_str v" "py_str x = t"
    by (auto simp: find_Some_decomp)
  from d(2) obtain s where "x = CStr s" "strip s \<noteq> []" by (auto simp: nonempty_str_iff)
  with d show "\<exists>pre s post. row = pre @ CStr s # post \<and> (\<forall>v\<in>set pre. \<not> nonempty_str v) \<and>
        strip s \<noteq> [] \<and> t = s"
    by auto
next
  assume "\<exists>pre s post. row = pre @ CStr s # post \<and> (\<forall>v\<in>set pre. \<not> nonempty_str v) \<and>
        strip s \<noteq> [] \<and> t = s"
  then obtain pre s post where d: "row = pre @ CStr s # post" "\<forall>v\<in>set pre. \<not> nonempty_str v"
    "strip s \<noteq> []" "t = s"
    by blast
  then have "find nonempty_str row = Some (CStr s)"
    unfolding find_Some_decomp by (intro exI [of _ pre] exI [of _ post]) simp
  with d(4) show "first_string_cell row = Some t" by (simp add: first_string_cell_find)
qed

lemma first_nonempty_str_Some:
  "first_nonempty_str row = Some t \<longleftrightarrow>
     (\<exists>pre s post. row = pre @ CStr s # post \<and> (\<forall>v\<in>set pre. \<not> nonempty_str v) \<and>
        strip s \<noteq> [] \<and> t = strip s)"
proof
  assume "first_nonempty_str row = Some t"
  then obtain x where "find nonempty_str row = Some x" "strip (py_str x) = t"
    by (auto simp: first_nonempty_str_find)
  then obtain pre post where d: "row = pre @ x # post" "nonempty_str x"
    "\<forall>v\<in>set pre. \<not> nonempty_str v" "strip (py_str x) = t"
    by (auto simp: find_Some_decomp)
  from d(2) obtain s where "x = CStr s" "strip s \<noteq> []" by (auto simp: nonempty_str_iff)
  with d show "\<exists>pre s post. row = pre @ CStr s # post \<and> (\<forall>v\<in>set pre. \<not> nonempty_str v) \<and>
        strip s \<noteq> [] \<and> t = strip s"
    by auto
next
  assume "\<exists>pre s post. row = pre @ CStr s # post \<and> (\<forall>v\<in>set pre. \<not> nonempty_str v) \<and>
        strip s \<noteq> [] \<and> t = strip s"
  then obtain pre s post where d: "row = pre @ CStr s # post" "\<forall>v\<in>set pre. \<not> nonempty_str v"
    "strip s \<noteq> []" "t = strip s"
    by blast
  then have "find nonempty_str row = Some (CStr s)"
    unfolding find_Some_decomp by (intro exI [of _ pre] exI [of _ post]) simp
  with d(4) show "first_nonempty_str row = Some t" by (simp add: first_nonempty_str_find)
qed

lemma first_string_cell_None:
  "first_string_cell row = None \<longleftrightarrow> (\<forall>v\<in>set row. \<not> nonempty_str v)"
  by (induction row) simp_all

lemma first_nonempty_str_None:
  "first_nonempty_str row = None \<longleftrightarrow> (\<forall>v\<in>set row. \<not> nonempty_str v)"
  by (induction row) simp_all

text \<open>
  Claim C6, as the programs have it. Both scans go through the cells in column order
  and stop at the first cell that is a string and is not empty after trimming; numbers and
  missing values are skipped, and the result is absent exactly when the row has no such
  cell. \<open>first_string_cell\<close> of \<open>app.py\<close> returns that string as it is; \<open>first_nonempty_str\<close>
  of \<open>txt_to_csv.py\<close> returns it trimmed.
\<close>

theorem first_nonempty_string_scan:
  "(first_string_cell row = Some t \<longleftrightarrow>
      (\<exists>pre s post. row = pre @ CStr s # post \<and> (\<forall>v\<in>set pre. \<not> nonempty_str v) \<and>
         strip s \<noteq> [] \<and> t = s)) \<and>
   (first_nonempty_str row = Some t \<longleftrightarrow>
      (\<exists>pre s post. row = pre @ CStr s # post \<and> (\<forall>v\<in>set pre. \<not> nonempty_str v) \<and>
         strip s \<noteq> [] \<and> t = strip s)) \<and>
   (first_string_cell row = None \<longleftrightarrow> (\<forall>v\<in>set row. \<not> nonempty_str v)) \<and>
   (first_nonempty_str row = None \<longleftrightarrow> (\<forall>v\<in>set row. \<not> nonempty_str v)) \<and>
   \<not> nonempty_str (CNum n) \<and> \<not> nonempty_str CMissing \<and>
   (nonempty_str (CStr s) \<longleftrightarrow> strip s \<noteq> [])"
proof -
  have "\<not> nonempty_str (CNum n)" "\<not> nonempty_str CMissing"
    "nonempty_str (CStr s) \<longleftrightarrow> strip s \<noteq> []"
    by simp_all
  with first_string_cell_Some [of row t] first_nonempty_str_Some [of row t]
    first_string_cell_None [of row] first_nonempty_str_None [of row]
  show ?thesis by blast
qed

theorem first_nonempty_string_scan_witness:
  "first_string_cell [CNum (ustr ''7''), CMissing, CStr (ustr '' ''), CStr (ustr '' a ''),
      CStr (ustr ''b'')] = Some (ustr '' a '') \<and>
   first_nonempty_str [CNum (ustr ''7''), CMissing, CStr (ustr '' ''), CStr (ustr '' a ''),
      CStr (ustr ''b'')] = Some (ustr ''a'') \<and>
   first_string_cell [CNum (ustr ''7''), CMissing, CStr (ustr '' '')] = None"
proof -
  let ?pre = "[CNum (ustr ''7''), CMissing, CStr (ustr '' '')]"
  let ?row = "?pre @ CStr (ustr '' a '') # [CStr (ustr ''b'')]"
  have p: "\<forall>v\<in>set ?pre. \<not> nonempty_str v" by (simp add: eval_str)
  have s: "strip (ustr '' a '') = ustr ''a''" by (simp add: eval_str)
  then have n: "strip (ustr '' a '') \<noteq> []" by (simp add: ustr_def)
  have 1: "first_string_cell ?row = Some (ustr '' a '')"
    using first_nonempty_string_scan [of ?row "ustr '' a ''"] p n by blast
  have "first_nonempty_str ?row = Some (strip (ustr '' a ''))"
    using first_nonempty_string_scan [of ?row "strip (ustr '' a '')"] p n by blast
  then have 2: "first_nonempty_str ?row = Some (ustr ''a'')" by (simp only: s)
  have 3: "first_string_cell ?pre = None"
    using first_nonempty_string_scan [of ?pre] p by blast
  from 1 2 3 show ?thesis by simp
qed

text \<open>
  Claim C6 as stated fails for \<open>txt_to_csv.py\<close>: the first qualifying cell holds the string
  \<open>a\<close> between two spaces, and \<open>first_nonempty_str\<close> returns \<open>a\<close>, not the cell's value.
\<close>

theorem first_nonempty_str_trims:
  "first_nonempty_str [CStr (ustr '' a '')] = Some (ustr ''a'') \<and>
   ustr ''a'' \<noteq> ustr '' a ''"
  by (simp add: eval_str)

section \<open>The base name of a row\<close>

lemma sanitize_filename_t2c_nonempty: "sanitize_filename_t2c x \<noteq> []"
  using sanitize_filename_t2c_normal [of x] by blast

lemma sanitize_filename_app_nonempty: "sanitize_filename_app x \<noteq> []"
  using sanitize_filename_app_normal [of x] by blast













section \<open>The \<open>.txt\<close> suffix\<close>

lemma ustr_txt: "ustr ''.txt'' = [46, 116, 120, 116]"
  by (simp add: ustr_def)

lemma endswith_append: "endswith (s @ suf) suf"
  by (simp add: endswith_def)

lemma lower_append: "lower (s @ t) = lower s @ lower t"
  by (simp add: lower_def)

lemma lower_txt: "lower (ustr ''.txt'') = ustr ''.txt''"
  by (simp add: lower_def ustr_txt)

lemma ensure_txt_suffix_endswith: "endswith (lower (ensure_txt_suffix name)) (ustr ''.txt'')"
  by (simp add: ensure_txt_suffix_def lower_append lower_txt endswith_append)

lemma dropWhile_append_keep:
  assumes "w \<noteq> []" "\<not> P (hd w)"
  shows "dropWhile P (s @ w) = dropWhile P s @ w"
proof (cases "\<forall>x\<in>set s. P x")
  case True
  with assms show ?thesis by (simp add: dropWhile_append dropWhile_hd_id)
next
  case False
  then show ?thesis by (auto simp: dropWhile_append)
qed

lemma strip_append_keep:
  assumes "w \<noteq> []" "\<not> isspace (hd w)" "\<not> isspace (last w)"
  shows "strip (s @ w) = dropWhile isspace s @ w"
proof -
  have 1: "dropWhile isspace (s @ w) = dropWhile isspace s @ w"
    using assms(1,2) by (rule dropWhile_append_keep)
  have "rev w \<noteq> []" "\<not> isspace (hd (rev w))" using assms(1,3) by (simp_all add: hd_rev)
  then have "dropWhile isspace (rev w @ rev (dropWhile isspace s)) =
      rev w @ rev (dropWhile isspace s)"
    by (cases "rev w") auto
  then show ?thesis by (simp add: strip_def 1)
qed

lemma sub_ws_no_space: "\<forall>c\<in>set w. \<not> isspace c \<Longrightarrow> sub_ws w = w"
  by (induction w) simp_all

lemma sub_ws_append_keep:
  assumes "\<forall>c\<in>set w. \<not> isspace c"
  shows "sub_ws (s @ w) = sub_ws s @ w"
proof (induction s rule: sub_ws.induct)
  case 1
  from assms show ?case by (simp add: sub_ws_no_space)
next
  case (2 c cs)
  show ?case
  proof (cases "isspace c")
    case True
    have "dropWhile isspace (cs @ w) = dropWhile isspace cs @ w"
    proof (cases "w = []")
      case True
      then show ?thesis by simp
    next
      case False
      with assms have "\<not> isspace (hd w)" by simp
      with False show ?thesis by (rule dropWhile_append_keep)
    qed
    with True 2(1) show ?thesis by simp
  next
    case False
    with 2(2) show ?thesis by simp
  qed
qed

lemma sanitize_filename_app_append_txt:
  "\<exists>pre. sanitize_filename_app (s @ ustr ''.txt'') = pre @ ustr ''.txt''"
proof -
  let ?w = "ustr ''.txt''"
  let ?r = "\<lambda>c. if unsafe_char c then 95 else c"
  have w: "?w \<noteq> []" "\<not> isspace (hd ?w)" "\<not> isspace (last ?w)" "\<forall>c\<in>set ?w. \<not> isspace c"
    "map ?r ?w = ?w"
    by (simp_all add: ustr_txt isspace_def unsafe_char_def)
  have 1: "strip (s @ ?w) = dropWhile isspace s @ ?w"
    using w(1,2,3) by (rule strip_append_keep)
  have 2: "map ?r (dropWhile isspace s @ ?w) = map ?r (dropWhile isspace s) @ ?w"
    using w(5) by simp
  have 3: "sub_ws (map ?r (dropWhile isspace s) @ ?w) = sub_ws (map ?r (dropWhile isspace s)) @ ?w"
    using w(4) by (rule sub_ws_append_keep)
  have "sanitize_filename_app (s @ ?w) = sub_ws (map ?r (dropWhile isspace s)) @ ?w"
    unfolding sanitize_filename_app_def Let_def 1 2 3 using w(1) by simp
  then show ?thesis by blast
qed

lemma raw_name_app_txt:
  "raw_name_app cols fc i row = Inr raw_name \<Longrightarrow> \<exists>s. raw_name = s @ ustr ''.txt''"
  by (auto simp: raw_name_app_def split: option.splits if_splits)

text \<open>
  Claim C2, as the programs have it. In \<open>txt_to_csv.py\<close> the resolved name ends with
  \<open>.txt\<close> in any letter case, and \<open>ensure_txt_suffix\<close> appends \<open>.txt\<close> only to a name that
  does not already end so, leaving any other name as it is. In \<open>app.py\<close> the suffix
  \<open>.txt\<close> is appended to every raw name, whatever its ending, and it survives the
  sanitizer.
\<close>

theorem txt_suffix_once:
  "endswith (lower (resolve_name opts cols i row)) (ustr ''.txt'') \<and>
   (endswith (lower name) (ustr ''.txt'') \<longrightarrow> ensure_txt_suffix name = name) \<and>
   (\<not> endswith (lower name) (ustr ''.txt'') \<longrightarrow> ensure_txt_suffix name = name @ ustr ''.txt'') \<and>
   (raw_name_app cols fc i row = Inr raw_name \<longrightarrow>
      endswith raw_name (ustr ''.txt'') \<and>
      endswith (sanitize_filename_app raw_name) (ustr ''.txt''))"
proof (intro conjI impI)
  show "endswith (lower (resolve_name opts cols i row)) (ustr ''.txt'')"
    by (simp add: resolve_name_def ensure_txt_suffix_endswith)
  show "endswith (lower name) (ustr ''.txt'') \<Longrightarrow> ensure_txt_suffix name = name"
    by (simp add: ensure_txt_suffix_def)
  show "\<not> endswith (lower name) (ustr ''.txt'') \<Longrightarrow> ensure_txt_suffix name = name @ ustr ''.txt''"
    by (simp add: ensure_txt_suffix_def)
next
  assume "raw_name_app cols fc i row = Inr raw_name"
  then obtain s where s: "raw_name = s @ ustr ''.txt''" using raw_name_app_txt by blast
  then show "endswith raw_name (ustr ''.txt'')" by (simp add: endswith_append)
  from sanitize_filename_app_append_txt [of s] s
  show "endswith (sanitize_filename_app raw_name) (ustr ''.txt'')"
    by (auto simp: endswith_append)
qed

theorem txt_suffix_once_witness:
  "endswith (lower (ustr ''report.TXT'')) (ustr ''.txt'') \<and>
   ensure_txt_suffix (ustr ''report.TXT'') = ustr ''report.TXT'' \<and>
   \<not> endswith (lower (ustr ''report'')) (ustr ''.txt'') \<and>
   ensure_txt_suffix (ustr ''report'') = ustr ''report.txt'' \<and>
   raw_name_app [ustr ''filename''] (Some (ustr ''filename'')) 0 [CStr (ustr ''report.TXT'')] =
     Inr (ustr ''report.TXT.txt'') \<and>
   endswith (sanitize_filename_app (ustr ''report.TXT.txt'')) (ustr ''.txt'')"
proof -
  have h1: "endswith (lower (ustr ''report.TXT'')) (ustr ''.txt'')" by (simp add: eval_str)
  have h2: "\<not> endswith (lower (ustr ''report'')) (ustr ''.txt'')" by (simp add: eval_str)
  have h3: "raw_name_app [ustr ''filename''] (Some (ustr ''filename'')) 0
      [CStr (ustr ''report.TXT'')] = Inr (ustr ''report.TXT.txt'')"
    by (simp add: raw_name_app_def series_get_def ustr_def)
  have e: "ustr ''report'' @ ustr ''.txt'' = ustr ''report.txt''" by (simp add: ustr_def)
  from txt_suffix_once [of _ "[ustr ''filename'']" 0 "[CStr (ustr ''report.TXT'')]"
      "ustr ''report.TXT''" "Some (ustr ''filename'')" "ustr ''report.TXT.txt''"] h1 h3
  have 1: "ensure_txt_suffix (ustr ''report.TXT'') = ustr ''report.TXT''"
    and 3: "endswith (sanitize_filename_app (ustr ''report.TXT.txt'')) (ustr ''.txt'')"
    by blast+
  from txt_suffix_once [of _ _ _ _ "ustr ''report''"] h2
  have "ensure_txt_suffix (ustr ''report'') = ustr ''report'' @ ustr ''.txt''" by blast
  then have 2: "ensure_txt_suffix (ustr ''report'') = ustr ''report.txt''" by (simp only: e)
  from h1 h2 h3 1 2 3 show ?thesis by blast
qed

text \<open>
  Claim C2 as stated fails in \<open>app.py\<close>: the filename cell \<open>report.TXT\<close> is written as
  \<open>report.TXT.txt\<close>.
\<close>

theorem txt_suffix_doubled:
  "convert_app \<lparr>columns = [ustr ''filename''], data = [[CStr (ustr ''report.TXT'')]]\<rparr> =
     Some (Inr \<lparr>rows_processed = 1, files_created = 1,
       archive = [(ustr ''report.TXT.txt'', ustr ''report.TXT'')]\<rparr>)"
  by (simp add: eval_app)

section \<open>Characters of the resolved name\<close>

lemma valid_char_safe: "valid_char c \<Longrightarrow> \<not> unsafe_char c"
  by (auto simp: valid_char_def unsafe_char_def)

lemma str_nat_digits: "\<forall>c\<in>set (str_nat n). 48 \<le> c \<and> c \<le> 57"
proof (induction n rule: str_nat.induct)
  case (1 n)
  show ?case
  proof (cases "n < 10")
    case True
    then show ?thesis by (simp add: str_nat.simps [of n])
  next
    case False
    have "n mod 10 < 10" by simp
    then have "48 + n mod 10 \<le> 57" by linarith
    with False 1 show ?thesis by (simp add: str_nat.simps [of n])
  qed
qed

lemma str_nat_nonempty: "str_nat n \<noteq> []"
  by (simp add: str_nat.simps [of n])

lemma row_name_safe: "\<forall>c\<in>set (row_name i). \<not> unsafe_char c"
proof
  fix c assume "c \<in> set (row_name i)"
  then have "c \<in> set (ustr ''row_'') \<or> c \<in> set (str_nat (i + 1))"
    by (simp add: row_name_def)
  then show "\<not> unsafe_char c"
  proof
    assume "c \<in> set (ustr ''row_'')"
    then show ?thesis by (auto simp: ustr_def unsafe_char_def)
  next
    assume "c \<in> set (str_nat (i + 1))"
    with str_nat_digits have "48 \<le> c \<and> c \<le> 57" by blast
    then show ?thesis by (auto simp: unsafe_char_def)
  qed
qed

lemma row_name_nonempty: "row_name i \<noteq> []"
  by (simp add: row_name_def ustr_def)

lemma base_name_safe: "\<forall>c\<in>set (base_name opts cols i row). \<not> unsafe_char c"
proof (cases "filename_col opts = NO_COLUMN")
  case True
  then show ?thesis using row_name_safe by (simp add: base_name_def)
next
  case False
  let ?raw = "strip (py_str (case series_get cols row (filename_col opts) of
                               None \<Rightarrow> CStr [] | Some val \<Rightarrow> val))"
  from False have "base_name opts cols i row = sanitize_filename_t2c ?raw"
    by (simp add: base_name_def Let_def sanitize_filename_t2c_nonempty)
  moreover have "\<forall>c\<in>set (sanitize_filename_t2c ?raw). valid_char c"
    using sanitize_filename_t2c_normal [of ?raw] by blast
  ultimately show ?thesis using valid_char_safe by auto
qed

lemma base_name_nonempty: "base_name opts cols i row \<noteq> []"
  by (simp add: base_name_def Let_def sanitize_filename_t2c_nonempty row_name_nonempty)

lemma ensure_txt_suffix_chars:
  "c \<in> set (ensure_txt_suffix name) \<Longrightarrow> unsafe_char c \<Longrightarrow> c \<in> set name"
  by (auto simp: ensure_txt_suffix_def ustr_txt unsafe_char_def split: if_splits)

lemma ensure_txt_suffix_nonempty: "ensure_txt_suffix name \<noteq> []"
  by (auto simp: ensure_txt_suffix_def ustr_txt endswith_def lower_def)

text \<open>
  Claim C3, as the programs have it. In \<open>txt_to_csv.py\<close> the sanitizer is applied to the
  base name before prefix and suffix are added, not after: the resolved name is never
  empty, the base name holds none of the characters slash, backslash, colon, star,
  question mark, double quote, angle brackets, bar, CR, LF and TAB, and such a character
  occurs in the resolved name only if the prefix or the suffix holds it. In \<open>app.py\<close>,
  which has neither prefix nor suffix, the whole name is sanitized: it is never empty and
  holds none of these characters.
\<close>

theorem resolved_name_characters:
  "resolve_name opts cols i row \<noteq> [] \<and>
   base_name opts cols i row \<noteq> [] \<and>
   (\<forall>c\<in>set (base_name opts cols i row). \<not> unsafe_char c) \<and>
   (\<forall>c\<in>set (resolve_name opts cols i row).
      unsafe_char c \<longrightarrow> c \<in> set (prefix opts) \<or> c \<in> set (suffix opts)) \<and>
   (raw_name_app cols fc i row = Inr raw_name \<longrightarrow>
      sanitize_filename_app raw_name \<noteq> [] \<and>
      (\<forall>c\<in>set (sanitize_filename_app raw_name). \<not> unsafe_char c))"
proof (intro conjI impI ballI)
  show "resolve_name opts cols i row \<noteq> []"
    by (simp add: resolve_name_def ensure_txt_suffix_nonempty)
  show "base_name opts cols i row \<noteq> []" by (rule base_name_nonempty)
  show "\<And>c. c \<in> set (base_name opts cols i row) \<Longrightarrow> \<not> unsafe_char c"
    using base_name_safe by blast
  show "\<And>c. c \<in> set (resolve_name opts cols i row) \<Longrightarrow> unsafe_char c \<Longrightarrow>
      c \<in> set (prefix opts) \<or> c \<in> set (suffix opts)"
  proof -
    fix c assume c: "c \<in> set (resolve_name opts cols i row)" "unsafe_char c"
    then have "c \<in> set (prefix opts @ base_name opts cols i row @ suffix opts)"
      unfolding resolve_name_def by (rule ensure_txt_suffix_chars)
    with c(2) base_name_safe [of opts cols i row]
    show "c \<in> set (prefix opts) \<or> c \<in> set (suffix opts)" by auto
  qed
  show "sanitize_filename_app raw_name \<noteq> []" by (rule sanitize_filename_app_nonempty)
  show "\<And>c. c \<in> set (sanitize_filename_app raw_name) \<Longrightarrow> \<not> unsafe_char c"
    using sanitize_filename_app_normal [of raw_name] by blast
qed

theorem resolved_name_characters_witness:
  "raw_name_app [ustr ''filename''] (Some (ustr ''filename'')) 0 [CStr (ustr ''a/b:c*'')] =
     Inr (ustr ''a/b:c*.txt'') \<and>
   sanitize_filename_app (ustr ''a/b:c*.txt'') = ustr ''a_b_c_.txt'' \<and>
   47 \<notin> set (sanitize_filename_app (ustr ''a/b:c*.txt'')) \<and>
   resolve_name \<lparr>filename_col = ustr ''filename'', text_mode = FirstNonEmptyString,
       text_col = None, prefix = ustr ''my '', suffix = ustr ''_v1''\<rparr>
     [ustr ''filename''] 0 [CStr (ustr ''a/b:c*'')] = ustr ''my a_b_c__v1.txt'' \<and>
   47 \<notin> set (resolve_name \<lparr>filename_col = ustr ''filename'', text_mode = FirstNonEmptyString,
       text_col = None, prefix = ustr ''my '', suffix = ustr ''_v1''\<rparr>
     [ustr ''filename''] 0 [CStr (ustr ''a/b:c*'')])"
proof -
  let ?opts = "\<lparr>filename_col = ustr ''filename'', text_mode = FirstNonEmptyString,
       text_col = None, prefix = ustr ''my '', suffix = ustr ''_v1''\<rparr>"
  let ?cols = "[ustr ''filename'']"
  let ?row = "[CStr (ustr ''a/b:c*'')]"
  have h: "raw_name_app ?cols (Some (ustr ''filename'')) 0 ?row = Inr (ustr ''a/b:c*.txt'')"
    by (simp add: raw_name_app_def series_get_def ustr_def)
  have e1: "sanitize_filename_app (ustr ''a/b:c*.txt'') = ustr ''a_b_c_.txt''"
    by (simp add: eval_app)
  have e2: "resolve_name ?opts ?cols 0 ?row = ustr ''my a_b_c__v1.txt''"
    by (simp add: eval_t2c)
  have u: "unsafe_char 47" by (simp add: unsafe_char_def)
  have p: "47 \<notin> set (prefix ?opts)" "47 \<notin> set (suffix ?opts)"
    by (simp_all add: ustr_def)
  note t = resolved_name_characters [of ?opts ?cols 0 ?row "Some (ustr ''filename'')"
      "ustr ''a/b:c*.txt''"]
  from t h u have 1: "47 \<notin> set (sanitize_filename_app (ustr ''a/b:c*.txt''))"
    by blast
  from t p u have 2: "47 \<notin> set (resolve_name ?opts ?cols 0 ?row)"
    by blast
  from h e1 e2 1 2 show ?thesis by blast
qed

text \<open>
  Claim C3 as stated fails in \<open>txt_to_csv.py\<close>: the prefix \<open>a/\<close> is added after the
  sanitizer has run, so the entry is named \<open>a/row_1.txt\<close>, with a slash.
\<close>

theorem prefix_not_sanitized:
  "convert_t2c \<lparr>filename_col = NO_COLUMN, text_mode = FirstNonEmptyString, text_col = None,
       prefix = ustr ''a/'', suffix = []\<rparr>
     \<lparr>columns = [ustr ''note''], data = [[CStr (ustr ''hello'')]]\<rparr> =
     Inr \<lparr>rows_processed = 1, files_created = 1,
       archive = [(ustr ''a/row_1.txt'', ustr ''hello'')]\<rparr> \<and>
   47 \<in> set (ustr ''a/row_1.txt'') \<and> unsafe_char 47"
  by (simp add: eval_t2c unsafe_char_def)

end
